theory Spec2Isabelle
  imports Main "HOL-Library.Char_ord" "HOL-Library.List_Lexorder"
begin

section \<open>Python primitives used by the sources\<close>

text \<open>
  Strings are lists of characters.  The exceptions that the modelled statements can
  raise are values of \<open>py_error\<close>; a function that can raise returns
  \<open>py_error + 'a\<close> with \<open>Inl\<close> for the exception.
\<close>

datatype py_error = IndexError | ValueError | AttributeError

text \<open>\<open>s[i]\<close>: a negative index counts from the end, an index out of range raises.\<close>

definition py_getitem :: "'a list \<Rightarrow> int \<Rightarrow> py_error + 'a" where
  "py_getitem s i =
     (let n = int (length s); j = (if i < 0 then i + n else i)
      in if j < 0 \<or> n \<le> j then Inl IndexError else Inr (s ! nat j))"

text \<open>\<open>s[a:b]\<close>, \<open>s[a:]\<close> and \<open>s[:b]\<close>: bounds are clipped, slicing never raises.\<close>

definition py_clip :: "nat \<Rightarrow> int \<Rightarrow> nat" where
  "py_clip n a = (if a < 0 then nat (max (a + int n) 0) else min (nat a) n)"

definition py_slice :: "'a list \<Rightarrow> int \<Rightarrow> int \<Rightarrow> 'a list" where
  "py_slice s a b = take (py_clip (length s) b - py_clip (length s) a) (drop (py_clip (length s) a) s)"

definition py_slice_from :: "'a list \<Rightarrow> int \<Rightarrow> 'a list" where
  "py_slice_from s a = drop (py_clip (length s) a) s"

definition py_slice_to :: "'a list \<Rightarrow> int \<Rightarrow> 'a list" where
  "py_slice_to s b = take (py_clip (length s) b) s"

text \<open>\<open>s.rfind(c)\<close> for a one-character needle: the highest index of \<open>c\<close>, or \<open>-1\<close>.\<close>

fun py_rfind :: "'a list \<Rightarrow> 'a \<Rightarrow> int" where
  "py_rfind [] c = -1"
| "py_rfind (x # xs) c =
     (let r = py_rfind xs c in if 0 \<le> r then r + 1 else if x = c then 0 else -1)"

text \<open>\<open>s.startswith(p)\<close>.\<close>

definition startswith :: "'a list \<Rightarrow> 'a list \<Rightarrow> bool" where
  "startswith s p = (take (length p) s = p)"

text \<open>\<open>xs.index(x)\<close>: the first position of \<open>x\<close>; raises \<open>ValueError\<close> when absent.\<close>

fun py_index :: "'a list \<Rightarrow> 'a \<Rightarrow> py_error + nat" where
  "py_index [] x = Inl ValueError"
| "py_index (y # ys) x =
     (if y = x then Inr 0
      else case py_index ys x of Inl e \<Rightarrow> Inl e | Inr i \<Rightarrow> Inr (Suc i))"

text \<open>
  \<open>xs.sort(key = k, reverse = True)\<close>: a stable sort into descending key order; elements
  with equal keys keep their order.  \<open>sort_key\<close> is the stable insertion sort of the
  library, here on the negated key.
\<close>

definition py_sort_reverse :: "('a \<Rightarrow> int) \<Rightarrow> 'a list \<Rightarrow> 'a list" where
  "py_sort_reverse k xs = sort_key (\<lambda>x. - k x) xs"

text \<open>\<open>True\<close> and \<open>False\<close> compare as 1 and 0.\<close>

definition py_bool :: "bool \<Rightarrow> int" where
  "py_bool b = (if b then 1 else 0)"

section \<open>The line parser of baseTextCtrl.py\<close>

definition namechars :: string where
  "namechars = ''abcdefghijklmnopqrstuvwxyzABCDEFGHIJKLMNOPQRSTUVWXYZ_0123456789''"

text \<open>
  How the \<open>for\<close> loop of \<open>parseLine_autocomplete\<close> is left: by one of its
  \<open>return\<close> statements, by \<open>break\<close> (with the values of \<open>i\<close> and
  \<open>i_base\<close> at that moment), or by running to its end (the \<open>else\<close> clause of the
  loop, with the value of \<open>i_base\<close>).
\<close>

datatype loop_exit =
    Returned "string \<times> string"
  | Broke int int
  | Exhausted int

text \<open>
  \<open>scan text i_base k\<close> runs the loop for \<open>i = k - 1, k - 2, ..., 0\<close>.  The single
  quote is \<open>CHR 0x27\<close>, the double quote \<open>CHR 0x22\<close>.
\<close>

fun scan :: "string \<Rightarrow> int \<Rightarrow> nat \<Rightarrow> py_error + loop_exit" where
  "scan text i_base 0 = Inr (Exhausted i_base)"
| "scan text i_base (Suc k) =
     (let i = int k in
      case py_getitem text i of
        Inl e \<Rightarrow> Inl e
      | Inr c \<Rightarrow>
          if c = CHR ''.'' then
            scan text (if i_base = 0 then i else i_base) k
          else if c \<in> set [CHR 0x27, CHR 0x22] then
            (if i_base = i + 1
             then Inr (Returned ([CHR 0x27, CHR 0x27], py_slice_from text (i_base + 1)))
             else Inr (Returned ('''', '''')))
          else if c = CHR '']'' then
            (if i_base = i + 1 \<and> 0 < i then
               (case py_getitem text (i - 1) of
                  Inl e \<Rightarrow> Inl e
                | Inr d \<Rightarrow>
                    if d = CHR ''[''
                    then Inr (Returned (''[]'', py_slice_from text (i_base + 1)))
                    else Inr (Returned ('''', '''')))
             else Inr (Returned ('''', '''')))
          else if c \<notin> set namechars then Inr (Broke i i_base)
          else scan text i_base k)"

text \<open>
  \<open>parseLine_autocomplete\<close>.  When the loop runs to its end, \<open>i\<close> holds the last
  value the loop gave it (0), or, for the empty text, the result of \<open>rfind\<close>; the
  \<open>else\<close> clause then decrements it.
\<close>

definition parseLine_autocomplete :: "string \<Rightarrow> py_error + (string \<times> string)" where
  "parseLine_autocomplete text =
     (let i = py_rfind text (CHR ''#'') in
      if 0 \<le> i \<and> count_list (py_slice_to text i) (CHR 0x22) mod 2 = 0
               \<and> count_list (py_slice_to text i) (CHR 0x27) mod 2 = 0
      then Inr ('''', '''')
      else
        case scan text 0 (length text) of
          Inl e \<Rightarrow> Inl e
        | Inr (Returned r) \<Rightarrow> Inr r
        | Inr ex \<Rightarrow>
            (let i_base = (case ex of Broke _ b \<Rightarrow> b | Exhausted b \<Rightarrow> b | Returned _ \<Rightarrow> 0);
                 i' = (case ex of Broke j _ \<Rightarrow> j
                       | _ \<Rightarrow> (if text = [] then i else 0) - 1)
             in if i_base = 0 then Inr ('''', py_slice_from text (i' + 1))
                else Inr (py_slice text (i' + 1) i_base, py_slice_from text (i_base + 1))))"

section \<open>The autocompletion extension of the code editor\<close>

text \<open>
  Python lists are objects: a list that is stored in an attribute can also be held, and
  changed, by the caller or by another editor.  The list objects live in a store that
  maps an address to the current value of the list at that address.
\<close>

type_synonym addr = nat

type_synonym store = "addr \<Rightarrow> string list"

text \<open>
  The state of an \<open>AutoCompletion\<close> editor, as far as autocompletion.py reads and
  writes it.  The document and the position of the text cursor belong to the editor
  widget (one character is one cursor position); the string list of
  \<open>__completerModel\<close> and the completion prefix belong to the completer, which keeps
  its own copy of the strings; \<open>__completerNames\<close> and \<open>__recentCompletions\<close> are
  references to list objects; the calls made on the popup are recorded in order, oldest
  first.  \<open>__autocompleteStart\<close> is \<open>None\<close> or a cursor, of which only the position
  is kept.
\<close>

datatype popup_call = Move nat | Show | Hide | SetCurrentIndex nat

record editor =
  document :: string
  cursor :: nat
  completerModel :: "string list"
  completionPrefix :: string
  completerNames :: addr
  recentCompletions :: addr
  autocompleteStart :: "nat option"
  popup :: "popup_call list"

text \<open>
  \<open>__init__\<close>: the model starts with the keyword list of the language, which is a
  parameter here; \<open>__completerNames\<close> and \<open>__recentCompletions\<close> are two new empty
  lists, at the addresses \<open>names\<close> and \<open>recent\<close>; no session is open.
\<close>

definition init_store :: "addr \<Rightarrow> addr \<Rightarrow> store \<Rightarrow> store" where
  "init_store names recent h = h(names := [], recent := [])"

definition init :: "string list \<Rightarrow> string \<Rightarrow> nat \<Rightarrow> addr \<Rightarrow> addr \<Rightarrow> editor" where
  "init kwlist doc pos names recent =
     \<lparr> document = doc, cursor = pos, completerModel = kwlist, completionPrefix = '''',
       completerNames = names, recentCompletions = recent, autocompleteStart = None,
       popup = [] \<rparr>"

text \<open>The property \<open>recentCompletionsList\<close> and its setter.\<close>

definition recentCompletionsList :: "editor \<Rightarrow> addr" where
  "recentCompletionsList e = recentCompletions e"

definition setRecentCompletionsList :: "addr \<Rightarrow> editor \<Rightarrow> editor" where
  "setRecentCompletionsList v e = e\<lparr> recentCompletions := v \<rparr>"

definition autocompleteActive :: "editor \<Rightarrow> bool" where
  "autocompleteActive e = (autocompleteStart e \<noteq> None)"

definition autocompleteCancel :: "editor \<Rightarrow> editor" where
  "autocompleteCancel e = e\<lparr> popup := popup e @ [Hide], autocompleteStart := None \<rparr>"

text \<open>
  The text selected by a cursor placed at the text cursor and then moved, keeping its
  anchor, to position \<open>a\<close>: the characters between the two positions.
\<close>

definition selectedText :: "editor \<Rightarrow> nat \<Rightarrow> string" where
  "selectedText e a =
     take (max a (cursor e) - min a (cursor e)) (drop (min a (cursor e)) (document e))"

text \<open>
  The rows of the completer's completion model.  The completer is set to be case
  insensitive in \<open>__init__\<close>; its completion model holds, in the order of the string
  list, the strings that start with the completion prefix when case is ignored.  The
  case folding of the library is the parameter \<open>cf\<close>.
\<close>

definition completionModel :: "(string \<Rightarrow> string) \<Rightarrow> editor \<Rightarrow> string list" where
  "completionModel cf e =
     filter (\<lambda>n. startswith (cf n) (cf (completionPrefix e))) (completerModel e)"

text \<open>
  The inner function \<open>completionIndex\<close> of \<open>__updateAutocompleterPrefix\<close>: the
  position in the recent completions, or \<open>-1\<close> where \<open>index\<close> raises.
\<close>

definition completionIndex :: "string list \<Rightarrow> string \<Rightarrow> int" where
  "completionIndex recent d = (case py_index recent d of Inl _ \<Rightarrow> -1 | Inr i \<Rightarrow> int i)"

text \<open>
  The ranking of \<open>__updateAutocompleterPrefix\<close>: the list of \<open>(row, value)\<close> pairs of
  the rows of the completion model, sorted twice, and the row of the first pair.
\<close>

definition completions :: "string list \<Rightarrow> (nat \<times> string) list" where
  "completions rows = map (\<lambda>row. (row, rows ! row)) [0..<length rows]"

definition sortedCompletions :: "string list \<Rightarrow> string \<Rightarrow> string list \<Rightarrow> (nat \<times> string) list" where
  "sortedCompletions recent prefix rows =
     py_sort_reverse (\<lambda>c. py_bool (startswith (snd c) prefix))
       (py_sort_reverse (\<lambda>c. completionIndex recent (snd c)) (completions rows))"

definition bestMatchRow :: "string list \<Rightarrow> string \<Rightarrow> string list \<Rightarrow> py_error + nat" where
  "bestMatchRow recent prefix rows =
     (case py_getitem (sortedCompletions recent prefix rows) 0 of
        Inl e \<Rightarrow> Inl e
      | Inr c \<Rightarrow> Inr (fst c))"

text \<open>\<open>__updateAutocompleterPrefix\<close>; it reads the list of recent completions.\<close>

definition updateAutocompleterPrefix ::
    "(string \<Rightarrow> string) \<Rightarrow> store \<Rightarrow> editor \<Rightarrow> py_error + editor" where
  "updateAutocompleterPrefix cf h e =
     (case autocompleteStart e of
        None \<Rightarrow> Inr (e\<lparr> popup := popup e @ [Hide] \<rparr>)
      | Some a \<Rightarrow>
          (let prefix = selectedText e a;
               e1 = e\<lparr> completionPrefix := prefix \<rparr>;
               model = completionModel cf e1
           in if length model \<noteq> 0 then
                (case bestMatchRow (h (recentCompletions e1)) prefix model of
                   Inl err \<Rightarrow> Inl err
                 | Inr row \<Rightarrow> Inr (e1\<lparr> popup := popup e1 @ [SetCurrentIndex row] \<rparr>))
              else Inr (autocompleteCancel e1)))"

text \<open>
  \<open>__positionAutocompleter\<close> moves the popup to the start of the completion (its
  geometry is not modelled).
\<close>

definition positionAutocompleter :: "editor \<Rightarrow> py_error + editor" where
  "positionAutocompleter e =
     (case autocompleteStart e of
        None \<Rightarrow> Inl AttributeError
      | Some a \<Rightarrow> Inr (e\<lparr> popup := popup e @ [Move a] \<rparr>))"

text \<open>
  \<open>autocompleteShow(offset, names)\<close>.  The start cursor is the text cursor moved left
  \<open>offset\<close> times, stopping at the start of the document.  \<open>names\<close> is \<open>None\<close> or a
  list object; it is compared, by value, with the list that \<open>__completerNames\<close> refers
  to; when they differ the completer copies the strings and the editor keeps the
  reference to the caller's list.
\<close>

definition autocompleteShow ::
    "(string \<Rightarrow> string) \<Rightarrow> store \<Rightarrow> nat \<Rightarrow> addr option \<Rightarrow> editor \<Rightarrow> py_error + editor" where
  "autocompleteShow cf h offset names e =
     (let startcursor = cursor e - offset;
          r1 =
            (if \<not> autocompleteActive e \<or> Some startcursor \<noteq> autocompleteStart e then
               (case positionAutocompleter (e\<lparr> autocompleteStart := Some startcursor \<rparr>) of
                  Inl err \<Rightarrow> Inl err
                | Inr e1 \<Rightarrow>
                    (case updateAutocompleterPrefix cf h e1 of
                       Inl err \<Rightarrow> Inl err
                     | Inr e2 \<Rightarrow> Inr (e2\<lparr> popup := popup e2 @ [Show] \<rparr>)))
             else Inr e)
      in case r1 of
           Inl err \<Rightarrow> Inl err
         | Inr e3 \<Rightarrow>
             updateAutocompleterPrefix cf h
               (case names of
                  None \<Rightarrow> e3
                | Some ns \<Rightarrow>
                    if h ns \<noteq> h (completerNames e3)
                    then e3\<lparr> completerModel := h ns, completerNames := ns \<rparr>
                    else e3))"

text \<open>
  \<open>onAutoComplete(text)\<close>: the text between the start of the completion and the text
  cursor is replaced by the accepted text, the session is cancelled, and the list of
  recent completions is changed in place: the accepted text is removed where it first
  occurs and appended.  Reading the position of \<open>__autocompleteStart\<close> raises when no
  session is open.
\<close>

definition onAutoComplete :: "string \<Rightarrow> store \<times> editor \<Rightarrow> py_error + store \<times> editor" where
  "onAutoComplete txt he =
     (let h = fst he; e = snd he in
      case autocompleteStart e of
        None \<Rightarrow> Inl AttributeError
      | Some a \<Rightarrow>
          (let lo = min a (cursor e); hi = max a (cursor e);
               e1 = e\<lparr> document := take lo (document e) @ txt @ drop hi (document e),
                       cursor := lo + length txt \<rparr>;
               e2 = autocompleteCancel e1;
               r = recentCompletions e2;
               h1 = (if txt \<in> set (h r) then h(r := remove1 txt (h r)) else h);
               h2 = h1(r := h1 r @ [txt])
           in Inr (h2, e2)))"

text \<open>
  A key event, as far as \<open>keyPressEvent\<close> reads it: the key, whether no modifier is
  held, and the text of the event.
\<close>

datatype key = Key_Escape | Key_Tab | Key_Shift | Key_Backspace | Key_Other

record key_event =
  key :: key
  noModifier :: bool
  eventText :: string

text \<open>
  The library around the extension: the case folding of the completer, \<open>str.isalnum\<close>,
  and the key handler of the editor widget that \<open>keyPressEvent\<close> calls through
  \<open>super\<close>.  The handler of the widget edits the document and moves the text cursor;
  for a document and a cursor position it gives the new document, the new cursor position
  and the map that takes a position of another cursor of the old document to its new
  position.  It does not touch the attributes of the extension.
\<close>

record library =
  casefold :: "string \<Rightarrow> string"
  isalnum :: "string \<Rightarrow> bool"
  widgetKeyPress :: "key_event \<Rightarrow> string \<times> nat \<Rightarrow> string \<times> nat \<times> (nat \<Rightarrow> nat)"

definition superKeyPressEvent :: "library \<Rightarrow> key_event \<Rightarrow> editor \<Rightarrow> editor" where
  "superKeyPressEvent L ev e =
     (let r = widgetKeyPress L ev (document e, cursor e)
      in e\<lparr> document := fst r, cursor := fst (snd r),
             autocompleteStart := map_option (snd (snd r)) (autocompleteStart e) \<rparr>)"

text \<open>\<open>keyPressEvent(event)\<close>.\<close>

definition keyPressEvent :: "library \<Rightarrow> store \<Rightarrow> key_event \<Rightarrow> editor \<Rightarrow> py_error + editor" where
  "keyPressEvent L h ev e =
     (if key ev = Key_Escape \<and> noModifier ev \<and> autocompleteActive e
      then Inr (autocompleteCancel e)
      else if key ev = Key_Tab \<and> noModifier ev \<and> autocompleteActive e
      then Inr e
      else
        (let e1 =
               (if autocompleteActive e \<and> \<not> isalnum L (eventText ev) \<and> eventText ev \<noteq> ''_''
                   \<and> key ev \<noteq> Key_Shift
                   \<and> \<not> (key ev = Key_Backspace
                         \<and> (case autocompleteStart e of
                               None \<Rightarrow> False
                             | Some a \<Rightarrow> a < cursor e))
                then autocompleteCancel e else e);
             e2 = superKeyPressEvent L ev e1
         in if autocompleteActive e2
            then (case positionAutocompleter e2 of
                    Inl err \<Rightarrow> Inl err
                  | Inr e3 \<Rightarrow> updateAutocompleterPrefix (casefold L) h e3)
            else Inr e2))"

text \<open>
  The operations of the editor on its autocompletion state, for sequences of calls.
  When an operation raises, the state stays as it was before the call (the only
  statement that can raise is the first one of \<open>onAutoComplete\<close>).
\<close>

datatype operation =
    OpShow nat "addr option"
  | OpCancel
  | OpAccept string
  | OpUpdate
  | OpSetRecent addr
  | OpKey key_event

definition step ::
    "library \<Rightarrow> operation \<Rightarrow> store \<times> editor \<Rightarrow> py_error + store \<times> editor" where
  "step L oper he =
     (case oper of
        OpShow offset names \<Rightarrow>
          (case autocompleteShow (casefold L) (fst he) offset names (snd he) of
             Inl err \<Rightarrow> Inl err
           | Inr e' \<Rightarrow> Inr (fst he, e'))
      | OpCancel \<Rightarrow> Inr (fst he, autocompleteCancel (snd he))
      | OpAccept txt \<Rightarrow> onAutoComplete txt he
      | OpUpdate \<Rightarrow>
          (case updateAutocompleterPrefix (casefold L) (fst he) (snd he) of
             Inl err \<Rightarrow> Inl err
           | Inr e' \<Rightarrow> Inr (fst he, e'))
      | OpSetRecent v \<Rightarrow> Inr (fst he, setRecentCompletionsList v (snd he))
      | OpKey ev \<Rightarrow>
          (case keyPressEvent L (fst he) ev (snd he) of
             Inl err \<Rightarrow> Inl err
           | Inr e' \<Rightarrow> Inr (fst he, e')))"

fun run :: "library \<Rightarrow> operation list \<Rightarrow> store \<times> editor \<Rightarrow> store \<times> editor" where
  "run L [] he = he"
| "run L (oper # ops) he =
     (case step L oper he of Inl _ \<Rightarrow> run L ops he | Inr he' \<Rightarrow> run L ops he')"

section \<open>Completion against the shell in baseTextCtrl.py\<close>

text \<open>\<open>s.split(sep)\<close> for a one-character separator; the result is never empty.\<close>

fun py_split :: "'a list \<Rightarrow> 'a \<Rightarrow> 'a list list" where
  "py_split [] sep = [[]]"
| "py_split (x # xs) sep =
     (if x = sep then [] # py_split xs sep
      else case py_split xs sep of
             [] \<Rightarrow> [[x]]
           | w # ws \<Rightarrow> (x # w) # ws)"

text \<open>\<open>sep.join(xs)\<close>.\<close>

fun py_join :: "'a list \<Rightarrow> 'a list list \<Rightarrow> 'a list" where
  "py_join sep [] = []"
| "py_join sep [x] = x"
| "py_join sep (x # y # ys) = x @ sep @ py_join sep (y # ys)"

text \<open>
  The state of a \<open>BaseTextCtrl\<close> that the completion path uses: the line stored with the
  delay timer, \<open>_autoComp_name\<close>, whether the autocompletion list of the editing
  component is active, the arguments of the last request to show that list, and the
  requests posted to the shell.
\<close>

record textctrl =
  delayTimer_line :: string
  autoComp_name :: string
  autoCompActive :: bool
  autoCompShown :: "(nat \<times> string) option"
  requests :: "string list"

text \<open>
  What the completion path reads from the application: whether the current editor or the
  current shell is this control, and the builtins of the current shell (\<open>None\<close> when
  \<open>getCurrentShell\<close> returns \<open>None\<close>).
\<close>

record app =
  editor1_is_self :: bool
  editor2_is_self :: bool
  editor2_builtins :: "string list option"

definition autoCompShow :: "nat \<Rightarrow> string list \<Rightarrow> textctrl \<Rightarrow> textctrl" where
  "autoCompShow lenentered names c =
     c\<lparr> autoCompActive := True, autoCompShown := Some (lenentered, py_join '' '' names) \<rparr>"

definition autoCompCancel :: "textctrl \<Rightarrow> textctrl" where
  "autoCompCancel c = c\<lparr> autoCompActive := False \<rparr>"

text \<open>
  \<open>autoComplete_do_now\<close>.  The request is posted to the current shell; when there is
  no current shell, \<open>getCurrentShell\<close> returns \<open>None\<close> and the call of
  \<open>postRequest\<close> raises.  \<open>str.lower\<close> is the parameter \<open>lower\<close>.
\<close>

definition autoComplete_do_now ::
    "(string \<Rightarrow> string) \<Rightarrow> app \<Rightarrow> textctrl \<Rightarrow> py_error + textctrl" where
  "autoComplete_do_now lower env c =
     (let line = delayTimer_line c in
      if line = [] then Inr c
      else
        case parseLine_autocomplete line of
          Inl e \<Rightarrow> Inl e
        | Inr (baseObject, name0) \<Rightarrow>
            (let name = lower name0;
                 c1 = c\<lparr> autoComp_name := baseObject @ ''.'' @ name \<rparr>
             in if name \<noteq> [] \<or> baseObject \<noteq> []
                then (case editor2_builtins env of
                        None \<Rightarrow> Inl AttributeError
                      | Some _ \<Rightarrow> Inr (c1\<lparr> requests := requests c1 @ [''DIR '' @ baseObject] \<rparr>))
                else Inr c1))"

text \<open>
  The loop of \<open>autoComplete_process\<close> that looks for the name in the sorted response:
  the first item whose lower-case form starts with the name, or the empty string.
\<close>

definition thename :: "(string \<Rightarrow> string) \<Rightarrow> string \<Rightarrow> string list \<Rightarrow> string" where
  "thename lower name response =
     (case find (\<lambda>item. startswith (lower item) name) response of
        None \<Rightarrow> ''''
      | Some item \<Rightarrow> item)"

text \<open>
  \<open>autoComplete_process(response)\<close>.  Unpacking the split name into two variables
  raises \<open>ValueError\<close> unless the split has exactly two parts.  \<open>str.upper\<close> (the
  sort key) and \<open>str.lower\<close> are the parameters \<open>upper\<close> and \<open>lower\<close>.
\<close>

definition autoComplete_process ::
    "(string \<Rightarrow> string) \<Rightarrow> (string \<Rightarrow> string) \<Rightarrow> app \<Rightarrow> string \<Rightarrow> textctrl
      \<Rightarrow> py_error + textctrl" where
  "autoComplete_process upper lower env response c =
     (if autoComp_name c = [] then Inr (autoCompCancel c)
      else
        case py_split (autoComp_name c) (CHR ''.'') of
          [baseObject, name] \<Rightarrow>
            (let response1 = py_split response (CHR '','') in
             if \<not> editor1_is_self env \<and> \<not> editor2_is_self env then Inr (autoCompCancel c)
             else
               (let response2 =
                      (case editor2_builtins env of
                         Some builtins \<Rightarrow>
                           if baseObject = [] then response1 @ builtins else response1
                       | None \<Rightarrow> response1);
                    response3 = sort_key upper response2
                in if thename lower name response3 = [] then Inr (autoCompCancel c)
                   else if \<not> autoCompActive c
                        then Inr (autoCompShow (length name) response3 c)
                        else Inr c))
        | _ \<Rightarrow> Inl ValueError)"

section \<open>Instances for the worked examples\<close>

text \<open>
  The library functions \<open>str.lower\<close>, \<open>str.upper\<close> and the case folding of the
  completer are parameters of the definitions above.  On texts of ASCII characters they
  act as follows; these instances are used in the worked examples only.
\<close>

definition ascii_upper :: string where
  "ascii_upper = ''ABCDEFGHIJKLMNOPQRSTUVWXYZ''"

definition ascii_lower :: string where
  "ascii_lower = ''abcdefghijklmnopqrstuvwxyz''"

definition lower_ascii :: "string \<Rightarrow> string" where
  "lower_ascii s =
     map (\<lambda>c. case map_of (zip ascii_upper ascii_lower) c of Some d \<Rightarrow> d | None \<Rightarrow> c) s"

definition upper_ascii :: "string \<Rightarrow> string" where
  "upper_ascii s =
     map (\<lambda>c. case map_of (zip ascii_lower ascii_upper) c of Some d \<Rightarrow> d | None \<Rightarrow> c) s"

text \<open>The store in which every address holds the empty list.\<close>

definition no_lists :: store where
  "no_lists a = []"

text \<open>
  A library for texts of ASCII characters whose widget inserts the text of a key event at
  the cursor (and deletes the character before the cursor for the backspace key); a
  cursor after the place of the edit moves with the text.
\<close>

definition isalnum_ascii :: "string \<Rightarrow> bool" where
  "isalnum_ascii s =
     (s \<noteq> [] \<and> (\<forall>c\<in>set s. c \<in> set ascii_lower \<or> c \<in> set ascii_upper \<or> c \<in> set ''0123456789''))"

definition typing :: "key_event \<Rightarrow> string \<times> nat \<Rightarrow> string \<times> nat \<times> (nat \<Rightarrow> nat)" where
  "typing ev dc =
     (let d = fst dc; c = snd dc in
      if key ev = Key_Backspace
      then (take (c - 1) d @ drop c d, c - 1, \<lambda>p. if c \<le> p \<and> 0 < c then p - 1 else p)
      else (take c d @ eventText ev @ drop c d, c + length (eventText ev),
            \<lambda>p. if c < p then p + length (eventText ev) else p))"

definition ascii_library :: library where
  "ascii_library = \<lparr> casefold = lower_ascii, isalnum = isalnum_ascii, widgetKeyPress = typing \<rparr>"

section \<open>The start of the completion under edits of the buffer\<close>

datatype edit = Insert nat nat | Delete nat nat

text \<open>
  Modelled from the spec: the adjustment of the anchor when the buffer is edited.  In
  autocompletion.py the anchor \<open>__autocompleteStart\<close> is a text cursor of the Qt library
  (created in \<open>autocompleteShow\<close>, which calls \<open>setKeepPositionOnInsert(True)\<close> on
  it); the code that moves such a cursor is not among the sources.  Following section 4.4
  of the specification: \<open>Insert q n\<close> inserts \<open>n\<close> characters at position \<open>q\<close> and
  shifts an anchor after \<open>q\<close> forward by \<open>n\<close> (an insertion at the anchor itself keeps
  it, as the source requests); \<open>Delete q n\<close> deletes the \<open>n\<close> characters from
  position \<open>q\<close> and shifts the anchor back by \<open>n\<close> when the deleted range ends at or
  before it; a deletion that spans the anchor invalidates the session (\<open>None\<close>); edits
  after the anchor leave it where it is.
\<close>

definition adjustAnchor :: "edit \<Rightarrow> nat \<Rightarrow> nat option" where
  "adjustAnchor ed a =
     (case ed of
        Insert q n \<Rightarrow> if q < a then Some (a + n) else Some a
      | Delete q n \<Rightarrow>
          if q + n \<le> a then Some (a - n)
          else if q < a then None
          else Some a)"

text \<open>
  Modelled from the spec: an edit of the buffer seen by an editor; the anchor of an open
  session is adjusted, and the session is closed when the anchor is invalidated.
\<close>

definition editSession :: "edit \<Rightarrow> editor \<Rightarrow> editor" where
  "editSession ed e =
     e\<lparr> autocompleteStart :=
          (case autocompleteStart e of None \<Rightarrow> None | Some a \<Rightarrow> adjustAnchor ed a) \<rparr>"

section \<open>Properties of the line parser\<close>


lemma py_getitem_in_range:
  "k < length s \<Longrightarrow> py_getitem s (int k) = Inr (s ! k)"
  by (simp add: py_getitem_def Let_def)

lemma py_getitem_pred:
  assumes "k < length s" "0 < k"
  shows "py_getitem s (int k - 1) = Inr (s ! (k - 1))"
proof -
  from assms(2) obtain j where j: "k = Suc j" by (cases k) auto
  with assms(1) have "j < length s" by simp
  then have "py_getitem s (int j) = Inr (s ! j)" by (rule py_getitem_in_range)
  with j show ?thesis by simp
qed

lemma scan_dot:
  assumes "k < length text" "text ! k = CHR ''.''"
  shows "scan text b (Suc k) = scan text (if b = 0 then int k else b) k"
  unfolding scan.simps(2) Let_def py_getitem_in_range [OF assms(1)] assms(2) by simp

lemma scan_quote:
  assumes "k < length text" "text ! k = CHR 0x27 \<or> text ! k = CHR 0x22"
  shows "scan text b (Suc k) =
     (if b = int k + 1
      then Inr (Returned ([CHR 0x27, CHR 0x27], py_slice_from text (b + 1)))
      else Inr (Returned ('''', '''')))"
  using assms(2) unfolding scan.simps(2) Let_def py_getitem_in_range [OF assms(1)] by auto

lemma scan_bracket:
  assumes "k < length text" "text ! k = CHR '']''"
  shows "scan text b (Suc k) =
     (if b = int k + 1 \<and> 0 < k \<and> text ! (k - 1) = CHR ''[''
      then Inr (Returned (''[]'', py_slice_from text (b + 1)))
      else Inr (Returned ('''', '''')))"
proof (cases "0 < k")
  case True
  show ?thesis
    unfolding scan.simps(2) Let_def py_getitem_in_range [OF assms(1)] assms(2)
      py_getitem_pred [OF assms(1) True]
    using True by simp
next
  case False
  show ?thesis
    unfolding scan.simps(2) Let_def py_getitem_in_range [OF assms(1)] assms(2)
    using False by simp
qed


lemma namechars_not_special:
  assumes "c \<in> set namechars"
  shows "c \<noteq> CHR ''.''" "c \<noteq> CHR 0x27" "c \<noteq> CHR 0x22" "c \<noteq> CHR '']''" "c \<noteq> CHR ''#''"
  using assms by (auto simp add: namechars_def)

lemma scan_other:
  assumes "k < length text" "text ! k \<noteq> CHR ''.''" "text ! k \<noteq> CHR 0x27"
    "text ! k \<noteq> CHR 0x22" "text ! k \<noteq> CHR '']''" "text ! k \<notin> set namechars"
  shows "scan text b (Suc k) = Inr (Broke (int k) b)"
  using assms(2-6) unfolding scan.simps(2) Let_def py_getitem_in_range [OF assms(1)]
  by (simp del: set_simps) simp

lemma scan_name:
  assumes "k < length text" "text ! k \<in> set namechars"
  shows "scan text b (Suc k) = scan text b k"
  using namechars_not_special [OF assms(2)] assms(2)
  unfolding scan.simps(2) Let_def py_getitem_in_range [OF assms(1)]
  by (simp del: set_simps) simp

lemma scan_no_error: "k \<le> length text \<Longrightarrow> \<exists>ex. scan text b k = Inr ex"
proof (induction k arbitrary: b)
  case 0
  then show ?case by simp
next
  case (Suc k)
  then have k: "k < length text" by simp
  consider (dot) "text ! k = CHR ''.''"
    | (quote) "text ! k = CHR 0x27 \<or> text ! k = CHR 0x22"
    | (bracket) "text ! k = CHR '']''"
    | (name) "text ! k \<in> set namechars"
    | (other) "text ! k \<noteq> CHR ''.''" "text ! k \<noteq> CHR 0x27" "text ! k \<noteq> CHR 0x22"
        "text ! k \<noteq> CHR '']''" "text ! k \<notin> set namechars"
    by blast
  then show ?case
  proof cases
    case dot
    from Suc.IH k show ?thesis unfolding scan_dot [OF k dot] by simp
  next
    case quote
    show ?thesis unfolding scan_quote [OF k quote] by simp
  next
    case bracket
    show ?thesis unfolding scan_bracket [OF k bracket] by simp
  next
    case name
    from Suc.IH k show ?thesis unfolding scan_name [OF k name] by simp
  next
    case other
    show ?thesis unfolding scan_other [OF k other] by simp
  qed
qed

lemma parse_no_error: "\<exists>r. parseLine_autocomplete text = Inr r"
proof -
  obtain ex where "scan text 0 (length text) = Inr ex"
    using scan_no_error [of "length text" "text" 0] by auto
  then show ?thesis
    by (cases ex) (simp_all add: parseLine_autocomplete_def Let_def)
qed

lemma py_rfind_neg: "py_rfind s c < 0 \<longleftrightarrow> c \<notin> set s"
  by (induction s) (auto simp add: Let_def)

lemma py_rfind_last:
  "i < length s \<Longrightarrow> s ! i = c \<Longrightarrow> c \<notin> set (drop (Suc i) s) \<Longrightarrow> py_rfind s c = int i"
proof (induction s arbitrary: i)
  case Nil
  then show ?case by simp
next
  case (Cons x xs)
  show ?case
  proof (cases i)
    case 0
    with Cons.prems have "c \<notin> set xs" "x = c" by simp_all
    then have "py_rfind xs c < 0" by (simp add: py_rfind_neg)
    with \<open>x = c\<close> 0 show ?thesis by (simp add: Let_def)
  next
    case (Suc j)
    with Cons.prems have "py_rfind xs c = int j" by (intro Cons.IH) simp_all
    with Suc show ?thesis by (simp add: Let_def)
  qed
qed


declare scan.simps(2) [simp del]

lemma nth_mid: "(xs @ y # zs) ! length xs = y"
  by simp

lemma scan_names:
  "set ys \<subseteq> set namechars \<Longrightarrow>
   scan (xs @ ys @ zs) b (length xs + length ys) = scan (xs @ ys @ zs) b (length xs)"
proof (induction ys arbitrary: zs rule: rev_induct)
  case Nil
  then show ?case by simp
next
  case (snoc y ys)
  let ?t = "xs @ ys @ y # zs"
  have t: "xs @ (ys @ [y]) @ zs = ?t" by simp
  have k: "length xs + length ys < length ?t" by simp
  have y: "?t ! (length xs + length ys) = y"
    using nth_mid [of "xs @ ys" y zs] by simp
  from snoc.prems have "y \<in> set namechars" "set ys \<subseteq> set namechars" by simp_all
  with y have "scan ?t b (Suc (length xs + length ys)) = scan ?t b (length xs + length ys)"
    using scan_name [OF k, of b] by simp
  also have "\<dots> = scan ?t b (length xs)"
    using snoc.IH [OF \<open>set ys \<subseteq> set namechars\<close>, of "y # zs"] by simp
  finally show ?case unfolding t by simp
qed

lemma scan_names_dots:
  "b \<noteq> 0 \<Longrightarrow> set ys \<subseteq> insert (CHR ''.'') (set namechars) \<Longrightarrow>
   scan (xs @ ys @ zs) b (length xs + length ys) = scan (xs @ ys @ zs) b (length xs)"
proof (induction ys arbitrary: zs rule: rev_induct)
  case Nil
  then show ?case by simp
next
  case (snoc y ys)
  let ?t = "xs @ ys @ y # zs"
  have t: "xs @ (ys @ [y]) @ zs = ?t" by simp
  have k: "length xs + length ys < length ?t" by simp
  have y: "?t ! (length xs + length ys) = y"
    using nth_mid [of "xs @ ys" y zs] by simp
  from snoc.prems have ys: "set ys \<subseteq> insert (CHR ''.'') (set namechars)"
    and y': "y = CHR ''.'' \<or> y \<in> set namechars" by auto
  have "scan ?t b (Suc (length xs + length ys)) = scan ?t b (length xs + length ys)"
  proof (cases "y = CHR ''.''")
    case True
    with y snoc.prems(1) show ?thesis using scan_dot [OF k, of b] by simp
  next
    case False
    with y y' show ?thesis using scan_name [OF k, of b] by simp
  qed
  also have "\<dots> = scan ?t b (length xs)"
    using snoc.IH [OF snoc.prems(1) ys, of "y # zs"] by simp
  finally show ?case unfolding t by simp
qed


lemma no_hash_not_comment:
  assumes "CHR ''#'' \<notin> set text"
  shows "parseLine_autocomplete text =
    (case scan text 0 (length text) of
          Inl e \<Rightarrow> Inl e
        | Inr (Returned r) \<Rightarrow> Inr r
        | Inr ex \<Rightarrow>
            (let i_base = (case ex of Broke _ b \<Rightarrow> b | Exhausted b \<Rightarrow> b | Returned _ \<Rightarrow> 0);
                 i' = (case ex of Broke j _ \<Rightarrow> j
                       | _ \<Rightarrow> (if text = [] then py_rfind text (CHR ''#'') else 0) - 1)
             in if i_base = 0 then Inr ('''', py_slice_from text (i' + 1))
                else Inr (py_slice text (i' + 1) i_base, py_slice_from text (i_base + 1))))"
proof -
  from assms have "py_rfind text (CHR ''#'') < 0" by (simp add: py_rfind_neg)
  then show ?thesis unfolding parseLine_autocomplete_def Let_def by simp
qed

lemma py_slice_from_append: "py_slice_from (xs @ ys) (int (length xs)) = ys"
  by (simp add: py_slice_from_def py_clip_def)

lemma py_slice_mid:
  "py_slice (xs @ ys @ zs) (int (length xs)) (int (length xs + length ys)) = ys"
  by (simp add: py_slice_def py_clip_def)

lemma parse_after_stop_dotted:
  assumes name: "set name \<subseteq> set namechars"
    and base: "set base \<subseteq> insert (CHR ''.'') (set namechars)"
    and stop: "c \<notin> set namechars" "c \<noteq> CHR ''.''" "c \<noteq> CHR 0x27" "c \<noteq> CHR 0x22"
      "c \<noteq> CHR '']''" "c \<noteq> CHR ''#''"
    and pre: "CHR ''#'' \<notin> set pre"
  shows "parseLine_autocomplete (pre @ c # base @ CHR ''.'' # name) = Inr (base, name)"
proof -
  let ?t = "pre @ c # base @ CHR ''.'' # name"
  let ?p = "length pre"
  let ?d = "Suc (length pre + length base)"
  have nohash: "CHR ''#'' \<notin> set ?t"
    using name base stop pre namechars_not_special(5) by auto
  have len: "length ?t = length (pre @ c # base @ [CHR ''.'']) + length name" by simp
  have s1: "scan ?t 0 (length ?t) = scan ?t 0 (Suc ?d)"
    using scan_names [OF name, of "pre @ c # base @ [CHR ''.'']" "[]" 0] by (simp add: ac_simps)
  have d: "?d < length ?t" by simp
  have atd: "?t ! ?d = CHR ''.''"
    using nth_mid [of "pre @ c # base" "CHR ''.''" name] by (simp add: ac_simps)
  have s2: "scan ?t 0 (Suc ?d) = scan ?t (int ?d) ?d"
    using scan_dot [OF d atd, of 0] by (simp add: ac_simps)
  have s3: "scan ?t (int ?d) ?d = scan ?t (int ?d) (Suc ?p)"
    using scan_names_dots [OF _ base, of "int ?d" "pre @ [c]" "CHR ''.'' # name"] by (simp add: ac_simps)
  have p: "?p < length ?t" by simp
  have atp: "?t ! ?p = c" by simp
  have s4: "scan ?t (int ?d) (Suc ?p) = Inr (Broke (int ?p) (int ?d))"
    using scan_other [OF p, of "int ?d"] stop atp by simp
  have r1: "py_slice ?t (int ?p + 1) (int ?d) = base"
    using py_slice_mid [of "pre @ [c]" base "CHR ''.'' # name"] by (simp add: ac_simps)
  have r2: "py_slice_from ?t (int ?d + 1) = name"
    using py_slice_from_append [of "pre @ c # base @ [CHR ''.'']" name] by (simp add: ac_simps)
  show ?thesis
    unfolding no_hash_not_comment [OF nohash] s1 s2 s3 s4 Let_def
    using r1 r2 by (simp add: ac_simps)
qed


lemma parse_scan_empty:
  assumes "scan text 0 (length text) = Inr (Returned ([], []))"
  shows "parseLine_autocomplete text = Inr ([], [])"
  using assms unfolding parseLine_autocomplete_def Let_def by simp

lemma parse_scan_broke_end:
  assumes "scan (pre @ [c]) 0 (length (pre @ [c])) = Inr (Broke (int (length pre)) 0)"
  shows "parseLine_autocomplete (pre @ [c]) = Inr ([], [])"
proof -
  have "py_slice_from (pre @ [c]) (int (length pre) + 1) = []"
    by (simp add: py_slice_from_def py_clip_def)
  with assms show ?thesis unfolding parseLine_autocomplete_def Let_def by simp
qed

lemma parse_after_stop_plain:
  assumes name: "set name \<subseteq> set namechars"
    and stop: "c \<notin> set namechars" "c \<noteq> CHR ''.''" "c \<noteq> CHR 0x27" "c \<noteq> CHR 0x22"
      "c \<noteq> CHR '']''" "c \<noteq> CHR ''#''"
    and pre: "CHR ''#'' \<notin> set pre"
  shows "parseLine_autocomplete (pre @ c # name) = Inr ([], name)"
proof -
  let ?t = "pre @ c # name"
  let ?p = "length pre"
  have nohash: "CHR ''#'' \<notin> set ?t"
    using name stop pre namechars_not_special(5) by auto
  have s1: "scan ?t 0 (length ?t) = scan ?t 0 (Suc ?p)"
    using scan_names [OF name, of "pre @ [c]" "[]" 0] by (simp add: ac_simps)
  have p: "?p < length ?t" by simp
  have atp: "?t ! ?p = c" by simp
  have s2: "scan ?t 0 (Suc ?p) = Inr (Broke (int ?p) 0)"
    using scan_other [OF p, of 0] stop atp by simp
  have r: "py_slice_from ?t (int ?p + 1) = name"
    using py_slice_from_append [of "pre @ [c]" name] by (simp add: ac_simps)
  show ?thesis
    unfolding no_hash_not_comment [OF nohash] s1 s2 Let_def
    using r by (simp add: ac_simps)
qed

lemma parse_stop_at_end:
  assumes "c \<notin> set namechars" "c \<noteq> CHR ''.''"
  shows "parseLine_autocomplete (pre @ [c]) = Inr ([], [])"
proof -
  let ?t = "pre @ [c]"
  have p: "length pre < length ?t" by simp
  have atp: "?t ! length pre = c" by simp
  consider (quote) "c = CHR 0x27 \<or> c = CHR 0x22" | (bracket) "c = CHR '']''"
    | (other) "c \<noteq> CHR 0x27" "c \<noteq> CHR 0x22" "c \<noteq> CHR '']''"
    by blast
  then show ?thesis
  proof cases
    case quote
    then have "scan ?t 0 (Suc (length pre)) = Inr (Returned ([], []))"
      using scan_quote [OF p, of 0] atp by simp
    then show ?thesis by (intro parse_scan_empty) simp
  next
    case bracket
    then have "scan ?t 0 (Suc (length pre)) = Inr (Returned ([], []))"
      using scan_bracket [OF p, of 0] atp by simp
    then show ?thesis by (intro parse_scan_empty) simp
  next
    case other
    with assms have "scan ?t 0 (Suc (length pre)) = Inr (Broke (int (length pre)) 0)"
      using scan_other [OF p, of 0] atp by simp
    then show ?thesis by (intro parse_scan_broke_end) simp
  qed
qed

lemma parse_quote_no_dot:
  assumes "set name \<subseteq> set namechars" "q = CHR 0x27 \<or> q = CHR 0x22 \<or> q = CHR '']''"
  shows "parseLine_autocomplete (pre @ q # name) = Inr ([], [])"
proof -
  let ?t = "pre @ q # name"
  let ?p = "length pre"
  have s1: "scan ?t 0 (length ?t) = scan ?t 0 (Suc ?p)"
    using scan_names [OF assms(1), of "pre @ [q]" "[]" 0] by (simp add: ac_simps)
  have p: "?p < length ?t" by simp
  have atp: "?t ! ?p = q" by simp
  have "scan ?t 0 (Suc ?p) = Inr (Returned ([], []))"
  proof (cases "q = CHR '']''")
    case True
    then show ?thesis using scan_bracket [OF p, of 0] atp by simp
  next
    case False
    with assms(2) show ?thesis using scan_quote [OF p, of 0] atp by simp
  qed
  with s1 show ?thesis by (intro parse_scan_empty) simp
qed

lemma parse_string_marker:
  assumes name: "set name \<subseteq> set namechars"
    and q: "q = CHR 0x27 \<or> q = CHR 0x22"
    and pre: "CHR ''#'' \<notin> set pre"
  shows "parseLine_autocomplete (pre @ q # CHR ''.'' # name) = Inr ([CHR 0x27, CHR 0x27], name)"
proof -
  let ?t = "pre @ q # CHR ''.'' # name"
  let ?p = "length pre"
  have nohash: "CHR ''#'' \<notin> set ?t"
    using name q pre namechars_not_special(5) by auto
  have s1: "scan ?t 0 (length ?t) = scan ?t 0 (Suc (Suc ?p))"
    using scan_names [OF name, of "pre @ [q, CHR ''.'']" "[]" 0] by (simp add: ac_simps)
  have d: "Suc ?p < length ?t" by simp
  have atd: "?t ! Suc ?p = CHR ''.''"
    using nth_mid [of "pre @ [q]" "CHR ''.''" name] by simp
  have s2: "scan ?t 0 (Suc (Suc ?p)) = scan ?t (int (Suc ?p)) (Suc ?p)"
    using scan_dot [OF d atd, of 0] by simp
  have p: "?p < length ?t" by simp
  have atp: "?t ! ?p = q" by simp
  have r: "py_slice_from ?t (int (Suc ?p) + 1) = name"
    using py_slice_from_append [of "pre @ [q, CHR ''.'']" name] by (simp add: ac_simps)
  have s3: "scan ?t (int (Suc ?p)) (Suc ?p) = Inr (Returned ([CHR 0x27, CHR 0x27], name))"
    using scan_quote [OF p, of "int (Suc ?p)"] atp q r by (simp add: ac_simps)
  show ?thesis
    unfolding no_hash_not_comment [OF nohash] s1 s2 s3 by simp
qed


lemma scan_to_bracket:
  assumes name: "set name \<subseteq> set namechars"
  shows "scan (pre @ x # CHR '']'' # CHR ''.'' # name) 0
           (length (pre @ x # CHR '']'' # CHR ''.'' # name)) =
         (if x = CHR ''[''
          then Inr (Returned (''[]'', name))
          else Inr (Returned ([], [])))"
proof -
  let ?t = "pre @ x # CHR '']'' # CHR ''.'' # name"
  let ?p = "length pre"
  have s1: "scan ?t 0 (length ?t) = scan ?t 0 (Suc (Suc (Suc ?p)))"
    using scan_names [OF name, of "pre @ [x, CHR '']'', CHR ''.'']" "[]" 0]
    by (simp add: ac_simps)
  have d: "Suc (Suc ?p) < length ?t" by simp
  have atd: "?t ! Suc (Suc ?p) = CHR ''.''"
    using nth_mid [of "pre @ [x, CHR '']'']" "CHR ''.''" name] by simp
  have s2: "scan ?t 0 (Suc (Suc (Suc ?p))) = scan ?t (int (Suc (Suc ?p))) (Suc (Suc ?p))"
    using scan_dot [OF d atd, of 0] by simp
  have b: "Suc ?p < length ?t" by simp
  have atb: "?t ! Suc ?p = CHR '']''"
    using nth_mid [of "pre @ [x]" "CHR '']''" "CHR ''.'' # name"] by simp
  have atx: "?t ! (Suc ?p - 1) = x" by simp
  have r: "py_slice_from ?t (int (Suc (Suc ?p)) + 1) = name"
    using py_slice_from_append [of "pre @ [x, CHR '']'', CHR ''.'']" name]
    by (simp add: ac_simps)
  have s3: "scan ?t (int (Suc (Suc ?p))) (Suc (Suc ?p)) =
      (if x = CHR ''['' then Inr (Returned (''[]'', name)) else Inr (Returned ([], [])))"
    unfolding scan_bracket [OF b atb] atx r by simp
  show ?thesis unfolding s1 s2 s3 by simp
qed

lemma parse_list_marker:
  assumes name: "set name \<subseteq> set namechars" and pre: "CHR ''#'' \<notin> set pre"
  shows "parseLine_autocomplete (pre @ ''[].'' @ name) = Inr (''[]'', name)"
proof -
  let ?t = "pre @ CHR ''['' # CHR '']'' # CHR ''.'' # name"
  have nohash: "CHR ''#'' \<notin> set ?t"
    using name pre namechars_not_special(5) by auto
  have "parseLine_autocomplete ?t = Inr (''[]'', name)"
    unfolding no_hash_not_comment [OF nohash] scan_to_bracket [OF name] by simp
  then show ?thesis by simp
qed

lemma parse_nonempty_brackets:
  assumes name: "set name \<subseteq> set namechars" and x: "x \<noteq> CHR ''[''"
  shows "parseLine_autocomplete (pre @ x # ''].'' @ name) = Inr ([], [])"
proof -
  let ?t = "pre @ x # CHR '']'' # CHR ''.'' # name"
  have "scan ?t 0 (length ?t) = Inr (Returned ([], []))"
    unfolding scan_to_bracket [OF name] using x by simp
  then have "parseLine_autocomplete ?t = Inr ([], [])" by (rule parse_scan_empty)
  then show ?thesis by simp
qed

lemma py_slice_to_nat: "i \<le> length s \<Longrightarrow> py_slice_to s (int i) = take i s"
  by (simp add: py_slice_to_def py_clip_def)

lemma parse_comment:
  assumes "i < length text" "text ! i = CHR ''#''" "CHR ''#'' \<notin> set (drop (Suc i) text)"
    and "even (count_list (take i text) (CHR 0x22))"
    and "even (count_list (take i text) (CHR 0x27))"
  shows "parseLine_autocomplete text = Inr ([], [])"
proof -
  have r: "py_rfind text (CHR ''#'') = int i"
    using assms(1-3) by (rule py_rfind_last)
  have s: "py_slice_to text (int i) = take i text"
    using assms(1) by (simp add: py_slice_to_nat)
  show ?thesis
    unfolding parseLine_autocomplete_def Let_def r s using assms(4,5) by (simp add: even_iff_mod_2_eq_zero)
qed

lemma scan_whole_names:
  assumes "set name \<subseteq> set namechars"
  shows "scan name 0 (length name) = Inr (Exhausted 0)"
  using scan_names [OF assms, of "[]" "[]" 0] by simp

lemma parse_line_start_plain:
  assumes "set name \<subseteq> set namechars"
  shows "parseLine_autocomplete name = Inr ([], name)"
proof -
  have nohash: "CHR ''#'' \<notin> set name"
    using assms namechars_not_special(5) by auto
  have "py_slice_from name ((if name = [] then py_rfind name (CHR ''#'') else 0) - 1 + 1) = name"
    by (simp add: py_slice_from_def py_clip_def)
  then show ?thesis
    unfolding no_hash_not_comment [OF nohash] scan_whole_names [OF assms] Let_def
    by simp
qed

lemma parse_line_start_dotted:
  assumes name: "set name \<subseteq> set namechars"
    and base: "set base \<subseteq> insert (CHR ''.'') (set namechars)"
    and ne: "base \<noteq> []"
  shows "parseLine_autocomplete (base @ CHR ''.'' # name) = Inr (base, name)"
proof -
  let ?t = "base @ CHR ''.'' # name"
  let ?d = "length base"
  have nohash: "CHR ''#'' \<notin> set ?t"
    using name base namechars_not_special(5) by auto
  have s1: "scan ?t 0 (length ?t) = scan ?t 0 (Suc ?d)"
    using scan_names [OF name, of "base @ [CHR ''.'']" "[]" 0] by (simp add: ac_simps)
  have d: "?d < length ?t" by simp
  have atd: "?t ! ?d = CHR ''.''" by simp
  from ne have d0: "int ?d \<noteq> 0" by simp
  have s2: "scan ?t 0 (Suc ?d) = scan ?t (int ?d) ?d"
    using scan_dot [OF d atd, of 0] by simp
  have s3: "scan ?t (int ?d) ?d = Inr (Exhausted (int ?d))"
    using scan_names_dots [OF d0 base, of "[]" "CHR ''.'' # name"] by simp
  have r1: "py_slice ?t 0 (int ?d) = base"
    using py_slice_mid [of "[]" base "CHR ''.'' # name"] by simp
  have r2: "py_slice_from ?t (int ?d + 1) = name"
    using py_slice_from_append [of "base @ [CHR ''.'']" name] by (simp add: ac_simps)
  show ?thesis
    unfolding no_hash_not_comment [OF nohash] s1 s2 s3 Let_def
    using r1 r2 d0 by simp
qed

lemma parse_leading_dot:
  assumes name: "set name \<subseteq> set namechars"
  shows "parseLine_autocomplete (CHR ''.'' # name) = Inr ([], CHR ''.'' # name)"
proof -
  let ?t = "CHR ''.'' # name"
  have nohash: "CHR ''#'' \<notin> set ?t"
    using name namechars_not_special(5) by auto
  have s1: "scan ?t 0 (length ?t) = scan ?t 0 (Suc 0)"
    using scan_names [OF name, of "[CHR ''.'']" "[]" 0] by simp
  have s2: "scan ?t 0 (Suc 0) = Inr (Exhausted 0)"
    using scan_dot [of 0 ?t 0] by simp
  have r: "py_slice_from ?t 0 = ?t" by (simp add: py_slice_from_def py_clip_def)
  show ?thesis
    unfolding no_hash_not_comment [OF nohash] s1 s2 Let_def using r by simp
qed

lemma parse_quote_dot_later:
  assumes name: "set name \<subseteq> set namechars"
    and mid: "set mid \<subseteq> insert (CHR ''.'') (set namechars)" "mid \<noteq> []"
    and q: "q = CHR 0x27 \<or> q = CHR 0x22 \<or> q = CHR '']''"
  shows "parseLine_autocomplete (pre @ q # mid @ CHR ''.'' # name) = Inr ([], [])"
proof -
  let ?t = "pre @ q # mid @ CHR ''.'' # name"
  let ?p = "length pre"
  let ?d = "Suc (length pre + length mid)"
  have s1: "scan ?t 0 (length ?t) = scan ?t 0 (Suc ?d)"
    using scan_names [OF name, of "pre @ q # mid @ [CHR ''.'']" "[]" 0] by (simp add: ac_simps)
  have d: "?d < length ?t" by simp
  have atd: "?t ! ?d = CHR ''.''"
    using nth_mid [of "pre @ q # mid" "CHR ''.''" name] by simp
  have s2: "scan ?t 0 (Suc ?d) = scan ?t (int ?d) ?d"
    using scan_dot [OF d atd, of 0] by simp
  have s3: "scan ?t (int ?d) ?d = scan ?t (int ?d) (Suc ?p)"
    using scan_names_dots [OF _ mid(1), of "int ?d" "pre @ [q]" "CHR ''.'' # name"]
    by (simp add: ac_simps)
  have p: "?p < length ?t" by simp
  have atp: "?t ! ?p = q" by simp
  from mid(2) have far: "int ?d \<noteq> int ?p + 1" by simp
  have s4: "scan ?t (int ?d) (Suc ?p) = Inr (Returned ([], []))"
  proof (cases "q = CHR '']''")
    case True
    then show ?thesis using scan_bracket [OF p, of "int ?d"] atp far by simp
  next
    case False
    with q show ?thesis using scan_quote [OF p, of "int ?d"] atp far by simp
  qed
  have "scan ?t 0 (length ?t) = Inr (Returned ([], []))"
    unfolding s1 s2 s3 s4 ..
  then show ?thesis by (rule parse_scan_empty)
qed

lemmas parse_eval = parseLine_autocomplete_def scan.simps py_getitem_def py_slice_def
  py_slice_from_def py_slice_to_def py_clip_def namechars_def Let_def

section \<open>Properties of the candidate ranking\<close>


lemma hd_sorted_min:
  assumes "sorted (map f ys)" "ys \<noteq> []" "y \<in> set ys"
  shows "f (hd ys) \<le> f y"
  using assms by (cases ys) auto

lemma hd_sort_key_mem: "xs \<noteq> [] \<Longrightarrow> hd (sort_key f xs) \<in> set xs"
proof -
  assume "xs \<noteq> []"
  then have "sort_key f xs \<noteq> []" by (metis length_0_conv length_sort)
  then have "hd (sort_key f xs) \<in> set (sort_key f xs)" by (rule hd_in_set)
  then show ?thesis by (simp only: set_sort)
qed

lemma hd_sort_key_min:
  assumes "xs \<noteq> []" "x \<in> set xs"
  shows "f (hd (sort_key f xs)) \<le> f x"
proof -
  from assms(1) have "sort_key f xs \<noteq> []" by (metis length_0_conv length_sort)
  moreover have "sorted (map f (sort_key f xs))" by simp
  moreover from assms(2) have "x \<in> set (sort_key f xs)" by simp
  ultimately show ?thesis using hd_sorted_min [of f "sort_key f xs" x] by blast
qed

lemma hd_sort_key_first:
  assumes "xs \<noteq> []"
  shows "hd (sort_key f xs) = hd (filter (\<lambda>x. f x = f (hd (sort_key f xs))) xs)"
proof -
  let ?ys = "sort_key f xs"
  from assms have ne: "?ys \<noteq> []" by (metis length_0_conv length_sort)
  have "filter (\<lambda>x. f x = f (hd ?ys)) xs = filter (\<lambda>x. f x = f (hd ?ys)) ?ys"
    by (rule sort_key_stable [symmetric])
  moreover from ne have "hd (filter (\<lambda>x. f x = f (hd ?ys)) ?ys) = hd ?ys"
    by (cases ?ys) simp_all
  ultimately show ?thesis by simp
qed

lemma hd_filter_least:
  assumes "sorted (map r xs)" "x \<in> set xs" "P x"
  shows "r (hd (filter P xs)) \<le> r x"
proof -
  have "sorted (map r (filter P xs))" using assms(1) by (rule sorted_filter)
  moreover from assms(2,3) have "x \<in> set (filter P xs)" by simp
  moreover then have "filter P xs \<noteq> []" by (auto simp add: filter_empty_conv)
  ultimately show ?thesis using hd_sorted_min [of r "filter P xs" x] by blast
qed

text \<open>The first element after two stable sorts, the second one having priority.\<close>

lemma hd_two_sorts:
  assumes "xs \<noteq> []" and b_def: "b = hd (sort_key g (sort_key f xs))"
  shows "b \<in> set xs"
    and "\<And>x. x \<in> set xs \<Longrightarrow> g b \<le> g x"
    and "\<And>x. x \<in> set xs \<Longrightarrow> g x = g b \<Longrightarrow> f b \<le> f x"
    and "b = hd (filter (\<lambda>x. f x = f b \<and> g x = g b) xs)"
proof -
  let ?s1 = "sort_key f xs"
  from assms(1) have ne1: "?s1 \<noteq> []" by (metis length_0_conv length_sort)
  have "b \<in> set ?s1" unfolding b_def using ne1 by (rule hd_sort_key_mem)
  then show mem: "b \<in> set xs" by simp
  show "\<And>x. x \<in> set xs \<Longrightarrow> g b \<le> g x"
    unfolding b_def using hd_sort_key_min [OF ne1, of _ g] by simp
  let ?P = "\<lambda>x. g x = g b"
  let ?xs' = "filter ?P xs"
  from mem have ne': "?xs' \<noteq> []" by (auto simp add: filter_empty_conv)
  have "b = hd (filter ?P ?s1)"
    unfolding b_def by (rule hd_sort_key_first [OF ne1])
  also have "filter ?P ?s1 = sort_key f ?xs'" by (rule filter_sort)
  finally have b: "b = hd (sort_key f ?xs')" .
  show "\<And>x. x \<in> set xs \<Longrightarrow> g x = g b \<Longrightarrow> f b \<le> f x"
  proof -
    fix x assume "x \<in> set xs" "g x = g b"
    then have "x \<in> set ?xs'" by simp
    from hd_sort_key_min [OF ne' this, of f] b show "f b \<le> f x" by simp
  qed
  have "b = hd (filter (\<lambda>x. f x = f b) ?xs')"
    using hd_sort_key_first [OF ne', of f] b by simp
  then show "b = hd (filter (\<lambda>x. f x = f b \<and> g x = g b) xs)"
    by (simp add: conj_commute)
qed



lemma py_index_first:
  "i < length xs \<Longrightarrow> xs ! i = x \<Longrightarrow> x \<notin> set (take i xs) \<Longrightarrow> py_index xs x = Inr i"
proof (induction xs arbitrary: i)
  case Nil
  then show ?case by simp
next
  case (Cons y ys)
  show ?case
  proof (cases i)
    case 0
    with Cons.prems show ?thesis by simp
  next
    case (Suc j)
    with Cons.prems have "y \<noteq> x" and j: "j < length ys" "ys ! j = x" "x \<notin> set (take j ys)"
      by auto
    from Cons.IH [OF j] have "py_index ys x = Inr j" .
    with \<open>y \<noteq> x\<close> Suc show ?thesis by simp
  qed
qed



lemma completionIndex_distinct:
  assumes "distinct recent" "i < length recent"
  shows "completionIndex recent (recent ! i) = int i"
proof -
  from assms have "recent ! i \<notin> set (take i recent)"
    by (metis distinct_take id_take_nth_drop not_distinct_conv_prefix)
  with assms(2) have "py_index recent (recent ! i) = Inr i"
    by (intro py_index_first) simp_all
  then show ?thesis by (simp add: completionIndex_def)
qed

lemma completions_set: "set (completions rows) = {(r, rows ! r) | r. r < length rows}"
  by (auto simp add: completions_def)

lemma completions_rows: "map fst (completions rows) = [0..<length rows]"
  by (simp add: completions_def comp_def)

lemma py_bool_le: "py_bool p \<le> py_bool q \<longleftrightarrow> (p \<longrightarrow> q)"
  by (simp add: py_bool_def)

lemma py_bool_eq: "py_bool p = py_bool q \<longleftrightarrow> (p \<longleftrightarrow> q)"
  by (simp add: py_bool_def)

lemma py_getitem_0: "xs \<noteq> [] \<Longrightarrow> py_getitem xs 0 = Inr (hd xs)"
  by (cases xs) (simp_all add: py_getitem_def)

lemma sortedCompletions_length:
  "length (sortedCompletions recent prefix rows) = length rows"
  by (simp add: sortedCompletions_def py_sort_reverse_def completions_def)

lemma bestMatchRow_hd:
  assumes "rows \<noteq> []"
  shows "bestMatchRow recent prefix rows = Inr (fst (hd (sortedCompletions recent prefix rows)))"
proof -
  from assms have "sortedCompletions recent prefix rows \<noteq> []"
    using sortedCompletions_length [of recent prefix rows] by auto
  then show ?thesis by (simp add: bestMatchRow_def py_getitem_0)
qed

lemma bestMatchRow_characterised:
  assumes "rows \<noteq> []"
  shows "\<exists>r<length rows. bestMatchRow recent prefix rows = Inr r \<and>
     (\<forall>r'<length rows.
        (startswith (rows ! r') prefix \<longrightarrow> startswith (rows ! r) prefix) \<and>
        ((startswith (rows ! r') prefix \<longleftrightarrow> startswith (rows ! r) prefix) \<longrightarrow>
           completionIndex recent (rows ! r') \<le> completionIndex recent (rows ! r)) \<and>
        ((startswith (rows ! r') prefix \<longleftrightarrow> startswith (rows ! r) prefix) \<and>
           completionIndex recent (rows ! r') = completionIndex recent (rows ! r) \<longrightarrow> r \<le> r'))"
proof -
  let ?f = "\<lambda>c. - completionIndex recent (snd c)"
  let ?g = "\<lambda>c. - py_bool (startswith (snd c) prefix)"
  let ?cs = "completions rows"
  define b where "b = hd (sort_key ?g (sort_key ?f ?cs))"
  from assms have ne: "?cs \<noteq> []" by (simp add: completions_def)
  note two = hd_two_sorts [OF ne b_def]
  from two(1) obtain r where r: "r < length rows" "b = (r, rows ! r)"
    by (auto simp add: completions_set)
  have best: "bestMatchRow recent prefix rows = Inr r"
    using bestMatchRow_hd [OF assms, of recent prefix] r(2)
    by (simp add: sortedCompletions_def py_sort_reverse_def b_def)
  have "\<forall>r'<length rows.
        (startswith (rows ! r') prefix \<longrightarrow> startswith (rows ! r) prefix) \<and>
        ((startswith (rows ! r') prefix \<longleftrightarrow> startswith (rows ! r) prefix) \<longrightarrow>
           completionIndex recent (rows ! r') \<le> completionIndex recent (rows ! r)) \<and>
        ((startswith (rows ! r') prefix \<longleftrightarrow> startswith (rows ! r) prefix) \<and>
           completionIndex recent (rows ! r') = completionIndex recent (rows ! r) \<longrightarrow> r \<le> r')"
  proof (intro allI impI)
    fix r' assume r': "r' < length rows"
    let ?c = "(r', rows ! r')"
    from r' have c: "?c \<in> set ?cs" by (auto simp add: completions_set)
    from two(2) [OF c] r(2)
    have 1: "startswith (rows ! r') prefix \<longrightarrow> startswith (rows ! r) prefix"
      by (simp add: py_bool_le)
    from two(3) [OF c] r(2)
    have 2: "(startswith (rows ! r') prefix \<longleftrightarrow> startswith (rows ! r) prefix) \<longrightarrow>
           completionIndex recent (rows ! r') \<le> completionIndex recent (rows ! r)"
      by (simp add: py_bool_eq)
    have 3: "(startswith (rows ! r') prefix \<longleftrightarrow> startswith (rows ! r) prefix) \<and>
           completionIndex recent (rows ! r') = completionIndex recent (rows ! r) \<longrightarrow> r \<le> r'"
    proof
      assume a: "(startswith (rows ! r') prefix \<longleftrightarrow> startswith (rows ! r) prefix) \<and>
           completionIndex recent (rows ! r') = completionIndex recent (rows ! r)"
      have srt: "sorted (map fst ?cs)" by (simp add: completions_rows)
      from a r(2) have P: "?f ?c = ?f b \<and> ?g ?c = ?g b" by (simp add: py_bool_eq)
      have "fst (hd (filter (\<lambda>x. ?f x = ?f b \<and> ?g x = ?g b) ?cs)) \<le> fst ?c"
        using srt c P by (rule hd_filter_least)
      then have "fst b \<le> fst ?c" using two(4) by simp
      then show "r \<le> r'" using r(2) by simp
    qed
    from 1 2 3 show "(startswith (rows ! r') prefix \<longrightarrow> startswith (rows ! r) prefix) \<and>
        ((startswith (rows ! r') prefix \<longleftrightarrow> startswith (rows ! r) prefix) \<longrightarrow>
           completionIndex recent (rows ! r') \<le> completionIndex recent (rows ! r)) \<and>
        ((startswith (rows ! r') prefix \<longleftrightarrow> startswith (rows ! r) prefix) \<and>
           completionIndex recent (rows ! r') = completionIndex recent (rows ! r) \<longrightarrow> r \<le> r')"
      by blast
  qed
  with r(1) best show ?thesis by blast
qed

section \<open>Properties of the completion session\<close>


lemma updateAutocompleterPrefix_closed:
  "autocompleteStart e = None \<Longrightarrow>
   updateAutocompleterPrefix cf h e = Inr (e\<lparr> popup := popup e @ [Hide] \<rparr>)"
  by (simp add: updateAutocompleterPrefix_def)

lemma updateAutocompleterPrefix_no_match:
  assumes "autocompleteStart e = Some a"
    and "completionModel cf (e\<lparr> completionPrefix := selectedText e a \<rparr>) = []"
  shows "updateAutocompleterPrefix cf h e =
    Inr (autocompleteCancel (e\<lparr> completionPrefix := selectedText e a \<rparr>))"
  using assms by (simp add: updateAutocompleterPrefix_def Let_def)

lemma updateAutocompleterPrefix_match:
  assumes "autocompleteStart e = Some a"
    and "completionModel cf (e\<lparr> completionPrefix := selectedText e a \<rparr>) \<noteq> []"
  shows "\<exists>r<length (completionModel cf (e\<lparr> completionPrefix := selectedText e a \<rparr>)).
     bestMatchRow (h (recentCompletions e)) (selectedText e a)
       (completionModel cf (e\<lparr> completionPrefix := selectedText e a \<rparr>)) = Inr r \<and>
     updateAutocompleterPrefix cf h e =
       Inr (e\<lparr> completionPrefix := selectedText e a, popup := popup e @ [SetCurrentIndex r] \<rparr>)"
proof -
  from bestMatchRow_characterised [OF assms(2), of "h (recentCompletions e)" "selectedText e a"]
  obtain r where "r < length (completionModel cf (e\<lparr> completionPrefix := selectedText e a \<rparr>))"
    "bestMatchRow (h (recentCompletions e)) (selectedText e a)
       (completionModel cf (e\<lparr> completionPrefix := selectedText e a \<rparr>)) = Inr r"
    by blast
  with assms show ?thesis
    by (simp add: updateAutocompleterPrefix_def Let_def)
qed

lemma completionModel_prefix:
  "completionModel cf (e\<lparr> completionPrefix := p \<rparr>) =
     filter (\<lambda>n. startswith (cf n) (cf p)) (completerModel e)"
  by (simp add: completionModel_def)


lemma updateAutocompleterPrefix_frame:
  "\<exists>e'. updateAutocompleterPrefix cf h e = Inr e' \<and>
     document e' = document e \<and> cursor e' = cursor e \<and>
     completerModel e' = completerModel e \<and> completerNames e' = completerNames e \<and>
     recentCompletions e' = recentCompletions e \<and>
     (popup e' = popup e @ [Hide] \<or> (\<exists>r. popup e' = popup e @ [SetCurrentIndex r])) \<and>
     autocompleteStart e' =
       (case autocompleteStart e of
          None \<Rightarrow> None
        | Some a \<Rightarrow>
            if filter (\<lambda>n. startswith (cf n) (cf (selectedText e a))) (completerModel e) = []
            then None else Some a)"
proof (cases "autocompleteStart e")
  case None
  then show ?thesis by (simp add: updateAutocompleterPrefix_closed)
next
  case (Some a)
  show ?thesis
  proof (cases "completionModel cf (e\<lparr> completionPrefix := selectedText e a \<rparr>) = []")
    case True
    from updateAutocompleterPrefix_no_match [OF Some True] Some True
    show ?thesis by (simp add: autocompleteCancel_def completionModel_prefix)
  next
    case False
    from updateAutocompleterPrefix_match [OF Some False] obtain r where
      "updateAutocompleterPrefix cf h e =
         Inr (e\<lparr> completionPrefix := selectedText e a, popup := popup e @ [SetCurrentIndex r] \<rparr>)"
      by blast
    with Some False show ?thesis by (simp add: completionModel_prefix)
  qed
qed

lemma autocompleteShow_same_anchor:
  assumes "autocompleteStart e = Some (cursor e - offset)"
  shows "autocompleteShow cf h offset names e =
     updateAutocompleterPrefix cf h
       (case names of
          None \<Rightarrow> e
        | Some ns \<Rightarrow>
            if h ns \<noteq> h (completerNames e)
            then e\<lparr> completerModel := h ns, completerNames := ns \<rparr>
            else e)"
  using assms by (simp add: autocompleteShow_def autocompleteActive_def Let_def)

lemma autocompleteShow_new_anchor:
  assumes "autocompleteStart e \<noteq> Some (cursor e - offset)"
  shows "autocompleteShow cf h offset names e =
     (case updateAutocompleterPrefix cf h
             (e\<lparr> autocompleteStart := Some (cursor e - offset),
                  popup := popup e @ [Move (cursor e - offset)] \<rparr>) of
        Inl err \<Rightarrow> Inl err
      | Inr e2 \<Rightarrow>
          updateAutocompleterPrefix cf h
            (case names of
               None \<Rightarrow> e2\<lparr> popup := popup e2 @ [Show] \<rparr>
             | Some ns \<Rightarrow>
                 if h ns \<noteq> h (completerNames e2)
                 then e2\<lparr> popup := popup e2 @ [Show], completerModel := h ns, completerNames := ns \<rparr>
                 else e2\<lparr> popup := popup e2 @ [Show] \<rparr>))"
proof -
  from assms have "\<not> autocompleteActive e \<or> Some (cursor e - offset) \<noteq> autocompleteStart e"
    by auto
  then show ?thesis
    by (auto simp add: autocompleteShow_def positionAutocompleter_def Let_def
        split: sum.splits option.splits)
qed


lemma autocompleteShow_same_anchor_frame:
  assumes "autocompleteStart e = Some (cursor e - offset)"
  shows "\<exists>e'. autocompleteShow cf h offset names e = Inr e' \<and>
     document e' = document e \<and> cursor e' = cursor e \<and>
     recentCompletions e' = recentCompletions e \<and>
     completerNames e' =
       (case names of
          None \<Rightarrow> completerNames e
        | Some ns \<Rightarrow> if h ns \<noteq> h (completerNames e) then ns else completerNames e) \<and>
     completerModel e' =
       (case names of
          None \<Rightarrow> completerModel e
        | Some ns \<Rightarrow> if h ns \<noteq> h (completerNames e) then h ns else completerModel e) \<and>
     (popup e' = popup e @ [Hide] \<or> (\<exists>r. popup e' = popup e @ [SetCurrentIndex r])) \<and>
     autocompleteStart e' =
       (if filter (\<lambda>n. startswith (cf n) (cf (selectedText e (cursor e - offset))))
             (completerModel e') = []
        then None else Some (cursor e - offset))"
proof -
  let ?e1 = "case names of
          None \<Rightarrow> e
        | Some ns \<Rightarrow>
            if h ns \<noteq> h (completerNames e)
            then e\<lparr> completerModel := h ns, completerNames := ns \<rparr>
            else e"
  have e1: "document ?e1 = document e" "cursor ?e1 = cursor e" "popup ?e1 = popup e"
    "recentCompletions ?e1 = recentCompletions e" "autocompleteStart ?e1 = autocompleteStart e"
    "completerNames ?e1 = (case names of
          None \<Rightarrow> completerNames e
        | Some ns \<Rightarrow> if h ns \<noteq> h (completerNames e) then ns else completerNames e)"
    "completerModel ?e1 = (case names of
          None \<Rightarrow> completerModel e
        | Some ns \<Rightarrow> if h ns \<noteq> h (completerNames e) then h ns else completerModel e)"
    by (simp_all split: option.splits)
  have sel: "selectedText ?e1 (cursor e - offset) = selectedText e (cursor e - offset)"
    by (simp add: selectedText_def e1)
  from updateAutocompleterPrefix_frame [of cf h ?e1] obtain e' where
    "updateAutocompleterPrefix cf h ?e1 = Inr e'"
    "document e' = document ?e1" "cursor e' = cursor ?e1"
    "completerModel e' = completerModel ?e1" "completerNames e' = completerNames ?e1"
    "recentCompletions e' = recentCompletions ?e1"
    "popup e' = popup ?e1 @ [Hide] \<or> (\<exists>r. popup e' = popup ?e1 @ [SetCurrentIndex r])"
    "autocompleteStart e' =
       (case autocompleteStart ?e1 of
          None \<Rightarrow> None
        | Some a \<Rightarrow>
            if filter (\<lambda>n. startswith (cf n) (cf (selectedText ?e1 a))) (completerModel ?e1) = []
            then None else Some a)"
    by blast
  then show ?thesis
    unfolding autocompleteShow_same_anchor [OF assms] e1 using assms sel
    by (simp add: e1)
qed


lemma autocompleteShow_new_anchor_frame:
  assumes "autocompleteStart e \<noteq> Some (cursor e - offset)"
  shows "\<exists>e' c1 c2. autocompleteShow cf h offset names e = Inr e' \<and>
     document e' = document e \<and> cursor e' = cursor e \<and>
     recentCompletions e' = recentCompletions e \<and>
     completerNames e' =
       (case names of
          None \<Rightarrow> completerNames e
        | Some ns \<Rightarrow> if h ns \<noteq> h (completerNames e) then ns else completerNames e) \<and>
     completerModel e' =
       (case names of
          None \<Rightarrow> completerModel e
        | Some ns \<Rightarrow> if h ns \<noteq> h (completerNames e) then h ns else completerModel e) \<and>
     popup e' = popup e @ [Move (cursor e - offset), c1, Show, c2] \<and>
     (c1 = Hide \<or> (\<exists>r. c1 = SetCurrentIndex r)) \<and>
     (c2 = Hide \<or> (\<exists>r. c2 = SetCurrentIndex r)) \<and>
     autocompleteStart e' =
       (if filter (\<lambda>n. startswith (cf n) (cf (selectedText e (cursor e - offset))))
             (completerModel e) = [] \<or>
           filter (\<lambda>n. startswith (cf n) (cf (selectedText e (cursor e - offset))))
             (completerModel e') = []
        then None else Some (cursor e - offset))"
proof -
  let ?a = "cursor e - offset"
  let ?e1 = "e\<lparr> autocompleteStart := Some ?a, popup := popup e @ [Move ?a] \<rparr>"
  have sel1: "selectedText ?e1 ?a = selectedText e ?a" by (simp add: selectedText_def)
  from updateAutocompleterPrefix_frame [of cf h ?e1] obtain e2 where e2:
    "updateAutocompleterPrefix cf h ?e1 = Inr e2"
    "document e2 = document e" "cursor e2 = cursor e"
    "completerModel e2 = completerModel e" "completerNames e2 = completerNames e"
    "recentCompletions e2 = recentCompletions e"
    "popup e2 = popup e @ [Move ?a] @ [Hide] \<or>
      (\<exists>r. popup e2 = popup e @ [Move ?a] @ [SetCurrentIndex r])"
    "autocompleteStart e2 =
       (if filter (\<lambda>n. startswith (cf n) (cf (selectedText ?e1 ?a))) (completerModel e) = []
        then None else Some ?a)"
    by auto
  note e2_8 = e2(8) [unfolded sel1]
  from e2(7) obtain c1 where c1: "popup e2 = popup e @ [Move ?a, c1]"
    "c1 = Hide \<or> (\<exists>r. c1 = SetCurrentIndex r)" by auto
  let ?e3 = "case names of
               None \<Rightarrow> e2\<lparr> popup := popup e2 @ [Show] \<rparr>
             | Some ns \<Rightarrow>
                 if h ns \<noteq> h (completerNames e2)
                 then e2\<lparr> popup := popup e2 @ [Show], completerModel := h ns, completerNames := ns \<rparr>
                 else e2\<lparr> popup := popup e2 @ [Show] \<rparr>"
  have e3: "document ?e3 = document e" "cursor ?e3 = cursor e"
    "popup ?e3 = popup e @ [Move ?a, c1, Show]"
    "recentCompletions ?e3 = recentCompletions e" "autocompleteStart ?e3 = autocompleteStart e2"
    "completerNames ?e3 = (case names of
          None \<Rightarrow> completerNames e
        | Some ns \<Rightarrow> if h ns \<noteq> h (completerNames e) then ns else completerNames e)"
    "completerModel ?e3 = (case names of
          None \<Rightarrow> completerModel e
        | Some ns \<Rightarrow> if h ns \<noteq> h (completerNames e) then h ns else completerModel e)"
    using e2(2-6) c1(1) by (simp_all split: option.splits)
  have sel3: "selectedText ?e3 ?a = selectedText e ?a"
    by (simp add: selectedText_def e3)
  from updateAutocompleterPrefix_frame [of cf h ?e3] obtain e' where e':
    "updateAutocompleterPrefix cf h ?e3 = Inr e'"
    "document e' = document ?e3" "cursor e' = cursor ?e3"
    "completerModel e' = completerModel ?e3" "completerNames e' = completerNames ?e3"
    "recentCompletions e' = recentCompletions ?e3"
    "popup e' = popup ?e3 @ [Hide] \<or> (\<exists>r. popup e' = popup ?e3 @ [SetCurrentIndex r])"
    "autocompleteStart e' =
       (case autocompleteStart ?e3 of
          None \<Rightarrow> None
        | Some a \<Rightarrow>
            if filter (\<lambda>n. startswith (cf n) (cf (selectedText ?e3 a))) (completerModel ?e3) = []
            then None else Some a)"
    by blast
  from e'(7) obtain c2 where c2: "popup e' = popup e @ [Move ?a, c1, Show, c2]"
    "c2 = Hide \<or> (\<exists>r. c2 = SetCurrentIndex r)" unfolding e3 by auto
  have start: "autocompleteStart e' =
       (if filter (\<lambda>n. startswith (cf n) (cf (selectedText e ?a))) (completerModel e) = [] \<or>
           filter (\<lambda>n. startswith (cf n) (cf (selectedText e ?a))) (completerModel e') = []
        then None else Some ?a)"
    using e'(8) e'(4) sel3 unfolding e3(5) e2_8 by simp
  have "autocompleteShow cf h offset names e = Inr e'"
    unfolding autocompleteShow_new_anchor [OF assms] e2(1) using e'(1) by simp
  with e'(2-6) c1(2) c2 start show ?thesis unfolding e3 by blast
qed

lemma autocompleteShow_frame:
  "\<exists>e'. autocompleteShow cf h offset names e = Inr e' \<and>
     recentCompletions e' = recentCompletions e"
  using autocompleteShow_same_anchor_frame [of e offset cf h names]
    autocompleteShow_new_anchor_frame [of e offset cf h names]
  by (cases "autocompleteStart e = Some (cursor e - offset)") blast+


section \<open>Properties of accepting a completion and of the shell path\<close>


lemma remove1_filter_distinct:
  assumes "distinct xs"
  shows "(if x \<in> set xs then remove1 x xs else xs) = filter (\<lambda>y. y \<noteq> x) xs"
proof (cases "x \<in> set xs")
  case True
  have "removeAll x ys = filter (\<lambda>y. y \<noteq> x) ys" for ys
    by (induction ys) auto
  with True assms show ?thesis by (simp add: distinct_remove1_removeAll)
next
  case False
  then have "filter (\<lambda>y. y \<noteq> x) xs = xs" by (auto simp add: filter_id_conv)
  with False show ?thesis by simp
qed

lemma onAutoComplete_closed:
  "autocompleteStart e = None \<Longrightarrow> onAutoComplete t (h, e) = Inl AttributeError"
  by (simp add: onAutoComplete_def)

lemma onAutoComplete_result:
  assumes "onAutoComplete t (h, e) = Inr (h', e')"
  shows "recentCompletions e' = recentCompletions e"
    and "autocompleteStart e' = None"
    and "completerNames e' = completerNames e"
    and "h' = h(recentCompletions e :=
            (if t \<in> set (h (recentCompletions e)) then remove1 t (h (recentCompletions e))
             else h (recentCompletions e)) @ [t])"
  using assms
  by (auto simp add: onAutoComplete_def autocompleteCancel_def Let_def split: option.splits)

lemma onAutoComplete_distinct:
  assumes "onAutoComplete t (h, e) = Inr (h', e')" "distinct (h (recentCompletions e))"
  shows "h' (recentCompletions e) = filter (\<lambda>x. x \<noteq> t) (h (recentCompletions e)) @ [t]"
    and "distinct (h' (recentCompletions e))"
proof -
  show 1: "h' (recentCompletions e) = filter (\<lambda>x. x \<noteq> t) (h (recentCompletions e)) @ [t]"
    unfolding onAutoComplete_result(4) [OF assms(1)]
    using remove1_filter_distinct [OF assms(2), of t] by simp
  show "distinct (h' (recentCompletions e))"
    unfolding 1 using assms(2) by simp
qed

lemma onAutoComplete_other:
  assumes "onAutoComplete t (h, e) = Inr (h', e')" "a \<noteq> recentCompletions e"
  shows "h' a = h a"
  unfolding onAutoComplete_result(4) [OF assms(1)] using assms(2) by simp

lemma keyPressEvent_frame:
  "\<exists>e'. keyPressEvent L h ev e = Inr e' \<and>
     recentCompletions e' = recentCompletions e \<and> completerNames e' = completerNames e \<and>
     completerModel e' = completerModel e"
proof -
  let ?e1 = "if autocompleteActive e \<and> \<not> isalnum L (eventText ev) \<and> eventText ev \<noteq> ''_''
                   \<and> key ev \<noteq> Key_Shift
                   \<and> \<not> (key ev = Key_Backspace
                         \<and> (case autocompleteStart e of
                               None \<Rightarrow> False
                             | Some a \<Rightarrow> a < cursor e))
                then autocompleteCancel e else e"
  let ?e2 = "superKeyPressEvent L ev ?e1"
  have e2: "recentCompletions ?e2 = recentCompletions e" "completerNames ?e2 = completerNames e"
    "completerModel ?e2 = completerModel e"
    by (simp_all add: superKeyPressEvent_def autocompleteCancel_def Let_def)
  show ?thesis
  proof (cases "autocompleteStart ?e2")
    case None
    then show ?thesis
      using e2 by (simp add: keyPressEvent_def Let_def autocompleteActive_def autocompleteCancel_def)
  next
    case (Some a)
    let ?e3 = "?e2\<lparr> popup := popup ?e2 @ [Move a] \<rparr>"
    from Some have pos: "positionAutocompleter ?e2 = Inr ?e3"
      by (simp add: positionAutocompleter_def)
    from updateAutocompleterPrefix_frame [of "casefold L" h ?e3] obtain e' where
      "updateAutocompleterPrefix (casefold L) h ?e3 = Inr e'"
      "recentCompletions e' = recentCompletions ?e3" "completerNames e' = completerNames ?e3"
      "completerModel e' = completerModel ?e3"
      by blast
    with Some pos e2 show ?thesis
      by (simp add: keyPressEvent_def Let_def autocompleteActive_def autocompleteCancel_def)
  qed
qed

lemma step_store:
  assumes "step L oper (h, e) = Inr (h', e')" "\<forall>t. oper \<noteq> OpAccept t"
  shows "h' = h"
  using assms by (cases oper) (auto simp add: step_def split: sum.splits)

lemma step_recent_ref:
  assumes "step L oper (h, e) = Inr (h', e')"
  shows "recentCompletions e' = (case oper of OpSetRecent v \<Rightarrow> v | _ \<Rightarrow> recentCompletions e)"
proof (cases oper)
  case (OpShow offset names)
  with assms autocompleteShow_frame [of "casefold L" h offset names e] show ?thesis
    by (auto simp add: step_def split: sum.splits)
next
  case OpCancel
  with assms show ?thesis by (auto simp add: step_def autocompleteCancel_def)
next
  case (OpAccept t)
  with assms onAutoComplete_result(1) [of t h e h' e'] show ?thesis
    by (simp add: step_def)
next
  case OpUpdate
  with assms updateAutocompleterPrefix_frame [of "casefold L" h e] show ?thesis
    by (auto simp add: step_def split: sum.splits)
next
  case (OpSetRecent v)
  with assms show ?thesis by (auto simp add: step_def setRecentCompletionsList_def)
next
  case (OpKey ev)
  with assms keyPressEvent_frame [of L h ev e] show ?thesis
    by (auto simp add: step_def split: sum.splits)
qed

lemma step_invariant:
  assumes "step L oper (h, e) = Inr (h', e')"
    and "\<forall>a\<in>A. distinct (h a)" and "recentCompletions e \<in> A"
    and "\<forall>v. oper = OpSetRecent v \<longrightarrow> v \<in> A"
  shows "(\<forall>a\<in>A. distinct (h' a)) \<and> recentCompletions e' \<in> A"
proof (cases "\<exists>t. oper = OpAccept t")
  case True
  then obtain t where t: "oper = OpAccept t" by blast
  with assms(1) have acc: "onAutoComplete t (h, e) = Inr (h', e')" by (simp add: step_def)
  from assms(2,3) have d: "distinct (h (recentCompletions e))" by blast
  have "distinct (h' a)" if "a \<in> A" for a
  proof (cases "a = recentCompletions e")
    case True
    with onAutoComplete_distinct(2) [OF acc d] show ?thesis by simp
  next
    case False
    with onAutoComplete_other [OF acc] assms(2) that show ?thesis by simp
  qed
  with onAutoComplete_result(1) [OF acc] assms(3) show ?thesis by simp
next
  case False
  then have "\<forall>t. oper \<noteq> OpAccept t" by blast
  from step_store [OF assms(1) this] step_recent_ref [OF assms(1)] assms(2,3,4) False
  show ?thesis by (cases oper) auto
qed

lemma run_invariant:
  assumes "\<forall>a\<in>A. distinct (fst he a)" and "recentCompletions (snd he) \<in> A"
    and "\<forall>v. OpSetRecent v \<in> set ops \<longrightarrow> v \<in> A"
  shows "(\<forall>a\<in>A. distinct (fst (run L ops he) a)) \<and> recentCompletions (snd (run L ops he)) \<in> A"
  using assms
proof (induction ops arbitrary: he)
  case Nil
  then show ?case by simp
next
  case (Cons oper ops)
  from Cons.prems(3) have ops: "\<forall>v. OpSetRecent v \<in> set ops \<longrightarrow> v \<in> A"
    and oper: "\<forall>v. oper = OpSetRecent v \<longrightarrow> v \<in> A" by auto
  show ?case
  proof (cases "step L oper he")
    case (Inl err)
    with Cons.IH [OF Cons.prems(1,2) ops] show ?thesis by simp
  next
    case (Inr he')
    then have "step L oper (fst he, snd he) = Inr (fst he', snd he')" by simp
    from step_invariant [OF this Cons.prems(1,2) oper]
    have "\<forall>a\<in>A. distinct (fst he' a)" "recentCompletions (snd he') \<in> A" by simp_all
    from Cons.IH [OF this ops] Inr show ?thesis by simp
  qed
qed

lemma py_split_length: "length (py_split s sep) = Suc (count_list s sep)"
  by (induction s) (auto split: list.splits)

lemma autoComplete_process_dotted_base:
  assumes "2 \<le> count_list (autoComp_name c) (CHR ''.'')"
  shows "autoComplete_process upper lower env response c = Inl ValueError"
proof -
  from assms have ne: "autoComp_name c \<noteq> []" by auto
  from assms have "3 \<le> length (py_split (autoComp_name c) (CHR ''.''))"
    by (simp add: py_split_length)
  then obtain x y z zs where "py_split (autoComp_name c) (CHR ''.'') = x # y # z # zs"
    by (metis Suc_le_length_iff numeral_3_eq_3)
  with ne show ?thesis by (simp add: autoComplete_process_def)
qed

subsection \<open>Ordinary identifier contexts\<close>

text \<open>
  Claim C4 says that the parser splits an ordinary identifier context at the rightmost
  dot.  The loop keeps the index of that dot in \<open>i_base\<close> and uses the value 0 for
  "no dot seen", so a dot at index 0 of the text is not recorded: the text \<open>.abc\<close> is
  not split, and the name returned contains the dot.  The same context after a space is
  split, and so is a dotted context that starts the line with a name.
\<close>

theorem leading_dot_not_split:
  "parseLine_autocomplete ''.abc'' = Inr ('''', ''.abc'') \<and>
   parseLine_autocomplete '' .abc'' = Inr ('''', ''abc'') \<and>
   parseLine_autocomplete ''food.fruit.ban'' = Inr (''food.fruit'', ''ban'')"
  by (simp add: parse_eval)

subsection \<open>String and list markers\<close>

text \<open>
  Claim C2, as stated, gives \<open>parse("x = [1,2].ap") = ("[]", "ap")\<close>.  The list marker
  is returned only after looking at the one character before the closing bracket, which
  must be the opening bracket; for \<open>[1,2]\<close> it is \<open>2\<close> and the result is the pair of
  empty strings.
\<close>

theorem list_marker_counterexample:
  "parseLine_autocomplete ''x = [1,2].ap'' = Inr ('''', '''') \<and>
   parseLine_autocomplete ''x = [1,2].ap'' \<noteq> Inr (''[]'', ''ap'')"
  by (simp add: parse_eval)

text \<open>
  Claim C2, amended.  With \<open>name\<close> made of name characters, and with no comment
  marker \<open>#\<close> in the text before the quote or the brackets: a quote directly followed
  by a dot and \<open>name\<close> gives the string marker \<open>''\<close> and \<open>name\<close>; the empty brackets
  \<open>[]\<close> directly followed by a dot and \<open>name\<close> give the list marker \<open>[]\<close> and
  \<open>name\<close>.  A closing bracket that is preceded by any character other than the opening
  bracket, and followed by a dot and \<open>name\<close>, gives the pair of empty strings.  So
  \<open>parse("x = 'abc'.up") = ("''", "up")\<close>, \<open>parse("x = [].ap") = ("[]", "ap")\<close> and
  \<open>parse("x = [1,2].ap") = ("", "")\<close>.
\<close>

theorem special_base_markers:
  assumes "set name \<subseteq> set namechars"
  shows "(CHR ''#'' \<notin> set pre \<and> (q = CHR 0x27 \<or> q = CHR 0x22) \<longrightarrow>
            parseLine_autocomplete (pre @ q # CHR ''.'' # name) = Inr ([CHR 0x27, CHR 0x27], name)) \<and>
         (CHR ''#'' \<notin> set pre \<longrightarrow>
            parseLine_autocomplete (pre @ ''[].'' @ name) = Inr (''[]'', name)) \<and>
         (x \<noteq> CHR ''['' \<longrightarrow>
            parseLine_autocomplete (pre @ x # ''].'' @ name) = Inr ('''', ''''))"
  using parse_string_marker [OF assms, of q pre] parse_list_marker [OF assms, of pre]
    parse_nonempty_brackets [OF assms, of x pre]
  by blast

theorem special_base_markers_witness:
  "parseLine_autocomplete ''x = 'abc'.up'' = Inr ([CHR 0x27, CHR 0x27], ''up'') \<and>
   parseLine_autocomplete ''x = [].ap'' = Inr (''[]'', ''ap'') \<and>
   parseLine_autocomplete ''x = [1,2].ap'' = Inr ('''', '''')"
proof -
  have up: "set ''up'' \<subseteq> set namechars" and ap: "set ''ap'' \<subseteq> set namechars"
    by (simp_all add: namechars_def)
  have "parseLine_autocomplete (''x = 'abc'' @ CHR 0x27 # CHR ''.'' # ''up'') =
      Inr ([CHR 0x27, CHR 0x27], ''up'')"
    using special_base_markers [OF up, where pre = "''x = 'abc''" and q = "CHR 0x27"] by simp
  moreover have "parseLine_autocomplete (''x = '' @ ''[].'' @ ''ap'') = Inr (''[]'', ''ap'')"
    using special_base_markers [OF ap, where pre = "''x = ''"] by simp
  moreover have "parseLine_autocomplete (''x = [1,'' @ CHR ''2'' # ''].'' @ ''ap'') = Inr ('''', '''')"
    using special_base_markers [OF ap, where x = "CHR ''2''" and pre = "''x = [1,''"] by simp
  ultimately show ?thesis by simp
qed

subsection \<open>Commented lines\<close>

text \<open>
  Claim C3 says that a text with a comment marker that has an even number of each quote
  before it is a comment and gives the pair of empty strings.  The parser tests only the
  last marker of the text (\<open>rfind\<close>).  The text \<open># "a#b\<close> is a comment from its
  first character on, but the last marker has one double quote before it, inside the
  comment, and the parser returns the name \<open>b\<close>.  The comment \<open># a#b\<close> gives the
  pair of empty strings.
\<close>

theorem comment_with_quote_not_detected:
  "[CHR ''#'', CHR '' '', CHR 0x22, CHR ''a'', CHR ''#'', CHR ''b''] ! 0 = CHR ''#'' \<and>
   count_list (take 0 [CHR ''#'', CHR '' '', CHR 0x22, CHR ''a'', CHR ''#'', CHR ''b'']) (CHR 0x22) mod 2 = 0 \<and>
   count_list (take 0 [CHR ''#'', CHR '' '', CHR 0x22, CHR ''a'', CHR ''#'', CHR ''b'']) (CHR 0x27) mod 2 = 0 \<and>
   parseLine_autocomplete [CHR ''#'', CHR '' '', CHR 0x22, CHR ''a'', CHR ''#'', CHR ''b'']
     = Inr ('''', ''b'') \<and>
   parseLine_autocomplete ''# a#b'' = Inr ('''', '''') \<and>
   parseLine_autocomplete ''# food.ban'' = Inr ('''', '''')"
  by (simp add: parse_eval)

subsection \<open>Totality\<close>

text \<open>
  Claim C6 says that the parser never raises, whatever the text, and that every pattern
  it does not recognise, the empty text included, gives the pair of empty strings; a line
  that ends in a dot has everything before the dot as its base and the empty name.  The
  parser never raises (lemma \<open>parse_no_error\<close>), and the empty text gives the pair of
  empty strings.  For the text that is a single dot the dot is at index 0, which the loop
  does not record, and the result is the empty base with the name \<open>.\<close>; the same dot
  after a space gives the pair of empty strings.
\<close>

theorem lone_dot_not_empty:
  "parseLine_autocomplete ''.'' = Inr ('''', ''.'') \<and>
   parseLine_autocomplete '' .'' = Inr ('''', '''') \<and>
   parseLine_autocomplete '''' = Inr ('''', '''')"
  by (simp add: parse_eval)

section \<open>Claims on the completion session\<close>

subsection \<open>The candidate ranking\<close>



subsection \<open>No matching candidate\<close>

text \<open>
  Claim C5.  While a session is open at anchor \<open>a\<close>, updating the prefix does not
  raise.  If no string of the completer's list starts with the prefix (the text between
  the anchor and the cursor) when case is ignored, no row is selected, the popup is hidden
  and the session is closed.  Otherwise the session stays open and one row is selected.
  A row that is selected is always a row of the filtered list: its candidate belongs to
  the completer's list and starts with the prefix when case is ignored.
\<close>

theorem no_match_closes_session:
  assumes "autocompleteStart e = Some a"
  shows "\<exists>e'. updateAutocompleterPrefix cf h e = Inr e' \<and>
     (filter (\<lambda>n. startswith (cf n) (cf (selectedText e a))) (completerModel e) = [] \<longrightarrow>
        autocompleteStart e' = None \<and> popup e' = popup e @ [Hide]) \<and>
     (filter (\<lambda>n. startswith (cf n) (cf (selectedText e a))) (completerModel e) \<noteq> [] \<longrightarrow>
        autocompleteStart e' = Some a \<and> (\<exists>r. popup e' = popup e @ [SetCurrentIndex r])) \<and>
     (\<forall>r. popup e' = popup e @ [SetCurrentIndex r] \<longrightarrow>
        r < length (filter (\<lambda>n. startswith (cf n) (cf (selectedText e a))) (completerModel e)) \<and>
        filter (\<lambda>n. startswith (cf n) (cf (selectedText e a))) (completerModel e) ! r
          \<in> set (completerModel e) \<and>
        startswith
          (cf (filter (\<lambda>n. startswith (cf n) (cf (selectedText e a))) (completerModel e) ! r))
          (cf (selectedText e a)))"
proof -
  let ?P = "\<lambda>n. startswith (cf n) (cf (selectedText e a))"
  let ?rows = "filter ?P (completerModel e)"
  have rows: "completionModel cf (e\<lparr> completionPrefix := selectedText e a \<rparr>) = ?rows"
    by (rule completionModel_prefix)
  have mem: "r < length ?rows \<Longrightarrow> ?rows ! r \<in> set (completerModel e) \<and> ?P (?rows ! r)" for r
    using nth_mem [of r ?rows] by simp
  show ?thesis
  proof (cases "?rows = []")
    case True
    with updateAutocompleterPrefix_no_match [OF assms, of cf h] rows
    show ?thesis by (simp add: autocompleteCancel_def)
  next
    case False
    with updateAutocompleterPrefix_match [OF assms, of cf h] rows obtain r where
      r: "r < length ?rows"
      "updateAutocompleterPrefix cf h e =
         Inr (e\<lparr> completionPrefix := selectedText e a, popup := popup e @ [SetCurrentIndex r] \<rparr>)"
      by auto
    with False assms mem [OF r(1)] show ?thesis by simp
  qed
qed

theorem no_match_closes_session_witness:
  "autocompleteShow lower_ascii (no_lists(7 := [''alpha'', ''amend'', ''beta''])) 0 (Some 7)
       (init [''and'', ''as''] ''0123456789'' 10 1 2) =
     Inr \<lparr> document = ''0123456789'', cursor = 10,
           completerModel = [''alpha'', ''amend'', ''beta''], completionPrefix = '''',
           completerNames = 7, recentCompletions = 2, autocompleteStart = Some 10,
           popup = [Move 10, SetCurrentIndex 0, Show, SetCurrentIndex 0] \<rparr> \<and>
   updateAutocompleterPrefix lower_ascii (no_lists(7 := [''alpha'', ''amend'', ''beta'']))
     \<lparr> document = ''0123456789a'', cursor = 11,
       completerModel = [''alpha'', ''amend'', ''beta''], completionPrefix = '''',
       completerNames = 7, recentCompletions = 2, autocompleteStart = Some 10,
       popup = [Move 10, SetCurrentIndex 0, Show, SetCurrentIndex 0] \<rparr> =
     Inr \<lparr> document = ''0123456789a'', cursor = 11,
           completerModel = [''alpha'', ''amend'', ''beta''], completionPrefix = ''a'',
           completerNames = 7, recentCompletions = 2, autocompleteStart = Some 10,
           popup = [Move 10, SetCurrentIndex 0, Show, SetCurrentIndex 0, SetCurrentIndex 0] \<rparr> \<and>
   (\<exists>e'. updateAutocompleterPrefix lower_ascii (no_lists(7 := [''alpha'', ''amend'', ''beta'']))
     \<lparr> document = ''0123456789az'', cursor = 12,
       completerModel = [''alpha'', ''amend'', ''beta''], completionPrefix = ''a'',
       completerNames = 7, recentCompletions = 2, autocompleteStart = Some 10,
       popup = [Move 10, SetCurrentIndex 0, Show, SetCurrentIndex 0, SetCurrentIndex 0] \<rparr> = Inr e' \<and>
     autocompleteStart e' = None \<and>
     popup e' = [Move 10, SetCurrentIndex 0, Show, SetCurrentIndex 0, SetCurrentIndex 0, Hide]) \<and>
   snd (run ascii_library
          [OpShow 0 (Some 7),
           OpKey \<lparr> key = Key_Other, noModifier = True, eventText = ''a'' \<rparr>,
           OpKey \<lparr> key = Key_Other, noModifier = True, eventText = ''z'' \<rparr>]
          (no_lists(7 := [''alpha'', ''amend'', ''beta'']),
           init [''and'', ''as''] ''0123456789'' 10 1 2)) =
     \<lparr> document = ''0123456789az'', cursor = 12,
       completerModel = [''alpha'', ''amend'', ''beta''], completionPrefix = ''az'',
       completerNames = 7, recentCompletions = 2, autocompleteStart = None,
       popup = [Move 10, SetCurrentIndex 0, Show, SetCurrentIndex 0,
                Move 10, SetCurrentIndex 0, Move 10, Hide] \<rparr>"
proof -
  let ?h = "no_lists(7 := [''alpha'', ''amend'', ''beta''])"
  have 1: "autocompleteShow lower_ascii ?h 0 (Some 7)
       (init [''and'', ''as''] ''0123456789'' 10 1 2) =
     Inr \<lparr> document = ''0123456789'', cursor = 10,
           completerModel = [''alpha'', ''amend'', ''beta''], completionPrefix = '''',
           completerNames = 7, recentCompletions = 2, autocompleteStart = Some 10,
           popup = [Move 10, SetCurrentIndex 0, Show, SetCurrentIndex 0] \<rparr>"
    by code_simp
  have 2: "updateAutocompleterPrefix lower_ascii ?h
     \<lparr> document = ''0123456789a'', cursor = 11,
       completerModel = [''alpha'', ''amend'', ''beta''], completionPrefix = '''',
       completerNames = 7, recentCompletions = 2, autocompleteStart = Some 10,
       popup = [Move 10, SetCurrentIndex 0, Show, SetCurrentIndex 0] \<rparr> =
     Inr \<lparr> document = ''0123456789a'', cursor = 11,
           completerModel = [''alpha'', ''amend'', ''beta''], completionPrefix = ''a'',
           completerNames = 7, recentCompletions = 2, autocompleteStart = Some 10,
           popup = [Move 10, SetCurrentIndex 0, Show, SetCurrentIndex 0, SetCurrentIndex 0] \<rparr>"
    by code_simp
  let ?e = "\<lparr> document = ''0123456789az'', cursor = 12,
       completerModel = [''alpha'', ''amend'', ''beta''], completionPrefix = ''a'',
       completerNames = 7, recentCompletions = 2, autocompleteStart = Some 10,
       popup = [Move 10, SetCurrentIndex 0, Show, SetCurrentIndex 0, SetCurrentIndex 0] \<rparr>"
  have open_session: "autocompleteStart ?e = Some 10" by simp
  have none: "filter (\<lambda>n. startswith (lower_ascii n) (lower_ascii (selectedText ?e 10)))
      (completerModel ?e) = []"
    by code_simp
  from no_match_closes_session [OF open_session, of lower_ascii ?h] none
  have 3: "\<exists>e'. updateAutocompleterPrefix lower_ascii ?h ?e = Inr e' \<and> autocompleteStart e' = None \<and>
     popup e' = [Move 10, SetCurrentIndex 0, Show, SetCurrentIndex 0, SetCurrentIndex 0, Hide]"
    by auto
  have 4: "snd (run ascii_library
          [OpShow 0 (Some 7),
           OpKey \<lparr> key = Key_Other, noModifier = True, eventText = ''a'' \<rparr>,
           OpKey \<lparr> key = Key_Other, noModifier = True, eventText = ''z'' \<rparr>]
          (?h, init [''and'', ''as''] ''0123456789'' 10 1 2)) =
     \<lparr> document = ''0123456789az'', cursor = 12,
       completerModel = [''alpha'', ''amend'', ''beta''], completionPrefix = ''az'',
       completerNames = 7, recentCompletions = 2, autocompleteStart = None,
       popup = [Move 10, SetCurrentIndex 0, Show, SetCurrentIndex 0,
                Move 10, SetCurrentIndex 0, Move 10, Hide] \<rparr>"
    by code_simp
  from 1 2 3 4 show ?thesis by blast
qed

subsection \<open>The list of recent completions\<close>

text \<open>
  Claim C7.  Accepting a completion \<open>t\<close> changes the list of recent completions in
  place and no other list: when the list has no duplicates before, afterwards it is the
  old list without \<open>t\<close>, followed by \<open>t\<close>; so it has no duplicates, its last element
  is \<open>t\<close>, and a value that was present is moved to the end.  Every other operation
  (show, cancel, update of the prefix, a key event, and the setter of the property, which
  only makes the editor refer to another list) leaves every list as it is.  Hence along any sequence
  of operations, all lists that the editor refers to as its recent completions stay free
  of duplicates, when those given to the setter are; in particular the list of a new
  editor stays free of duplicates as long as the setter is not used.
\<close>

theorem recency_list_invariant:
  "(onAutoComplete t (h, e) = Inr (h', e') \<and> distinct (h (recentCompletions e)) \<longrightarrow>
      recentCompletions e' = recentCompletions e \<and>
      h' (recentCompletions e) = filter (\<lambda>x. x \<noteq> t) (h (recentCompletions e)) @ [t] \<and>
      distinct (h' (recentCompletions e)) \<and>
      last (h' (recentCompletions e)) = t \<and>
      (\<forall>a. a \<noteq> recentCompletions e \<longrightarrow> h' a = h a)) \<and>
   (step L oper (h, e) = Inr (h1, e1) \<and> (\<forall>x. oper \<noteq> OpAccept x) \<longrightarrow> h1 = h) \<and>
   ((\<forall>a\<in>A. distinct (h a)) \<and> recentCompletions e \<in> A \<and>
    (\<forall>v. OpSetRecent v \<in> set ops \<longrightarrow> v \<in> A) \<longrightarrow>
      (\<forall>a\<in>A. distinct (fst (run L ops (h, e)) a)) \<and>
      recentCompletions (snd (run L ops (h, e))) \<in> A) \<and>
   ((\<forall>v. OpSetRecent v \<notin> set ops) \<longrightarrow>
      distinct (fst (run L ops (init_store names recent h, init kwlist doc pos names recent))
                  recent))"
proof -
  have 1: "recentCompletions e' = recentCompletions e \<and>
      h' (recentCompletions e) = filter (\<lambda>x. x \<noteq> t) (h (recentCompletions e)) @ [t] \<and>
      distinct (h' (recentCompletions e)) \<and>
      last (h' (recentCompletions e)) = t \<and>
      (\<forall>a. a \<noteq> recentCompletions e \<longrightarrow> h' a = h a)"
    if acc: "onAutoComplete t (h, e) = Inr (h', e')" and d: "distinct (h (recentCompletions e))"
    using onAutoComplete_result(1) [OF acc] onAutoComplete_distinct [OF acc d]
      onAutoComplete_other [OF acc]
    by simp
  have 2: "h1 = h" if "step L oper (h, e) = Inr (h1, e1)" "\<forall>x. oper \<noteq> OpAccept x"
    using that by (rule step_store)
  have 3: "(\<forall>a\<in>A. distinct (fst (run L ops (h, e)) a)) \<and>
      recentCompletions (snd (run L ops (h, e))) \<in> A"
    if "\<forall>a\<in>A. distinct (h a)" "recentCompletions e \<in> A"
      "\<forall>v. OpSetRecent v \<in> set ops \<longrightarrow> v \<in> A"
    using run_invariant [of A "(h, e)" ops L] that by simp
  have 4: "distinct (fst (run L ops (init_store names recent h, init kwlist doc pos names recent))
                  recent)"
    if "\<forall>v. OpSetRecent v \<notin> set ops"
    using run_invariant [of "{recent}"
        "(init_store names recent h, init kwlist doc pos names recent)" ops L] that
    by (simp add: init_store_def init_def)
  from 1 2 3 4 show ?thesis by blast
qed

theorem recency_list_invariant_witness:
  "fst (run ascii_library
          [OpShow 0 None, OpAccept ''alpha'', OpShow 0 None, OpAccept ''beta'',
           OpShow 0 None, OpCancel, OpUpdate, OpShow 0 None, OpAccept ''alpha'']
          (init_store 1 2 no_lists, init [''alpha'', ''beta''] '''' 0 1 2)) 2 = [''beta'', ''alpha''] \<and>
   distinct (fst (run ascii_library
          [OpShow 0 None, OpAccept ''alpha'', OpShow 0 None, OpAccept ''beta'',
           OpShow 0 None, OpCancel, OpUpdate, OpShow 0 None, OpAccept ''alpha'']
          (init_store 1 2 no_lists, init [''alpha'', ''beta''] '''' 0 1 2)) 2) \<and>
   onAutoComplete ''alpha''
     (no_lists(2 := [''alpha'', ''beta'']),
      \<lparr> document = ''al'', cursor = 2, completerModel = [''alpha'', ''beta''],
        completionPrefix = ''al'', completerNames = 1, recentCompletions = 2,
        autocompleteStart = Some 0, popup = [] \<rparr>) =
     Inr (no_lists(2 := [''beta'', ''alpha'']),
      \<lparr> document = ''alpha'', cursor = 5, completerModel = [''alpha'', ''beta''],
        completionPrefix = ''al'', completerNames = 1, recentCompletions = 2,
        autocompleteStart = None, popup = [Hide] \<rparr>) \<and>
   last ((no_lists(2 := [''beta'', ''alpha''])) 2) = ''alpha'' \<and>
   step ascii_library OpCancel
     (no_lists(2 := [''alpha'', ''beta'']),
      \<lparr> document = ''al'', cursor = 2, completerModel = [''alpha'', ''beta''],
        completionPrefix = ''al'', completerNames = 1, recentCompletions = 2,
        autocompleteStart = Some 0, popup = [] \<rparr>) =
     Inr (no_lists(2 := [''alpha'', ''beta'']),
      \<lparr> document = ''al'', cursor = 2, completerModel = [''alpha'', ''beta''],
        completionPrefix = ''al'', completerNames = 1, recentCompletions = 2,
        autocompleteStart = None, popup = [Hide] \<rparr>)"
proof -
  let ?he = "(init_store 1 2 no_lists, init [''alpha'', ''beta''] '''' 0 1 2)"
  let ?ops = "[OpShow 0 None, OpAccept ''alpha'', OpShow 0 None, OpAccept ''beta'',
           OpShow 0 None, OpCancel, OpUpdate, OpShow 0 None, OpAccept ''alpha'']"
  let ?h = "no_lists(2 := [''alpha'', ''beta''])"
  let ?h' = "no_lists(2 := [''beta'', ''alpha''])"
  let ?e = "\<lparr> document = ''al'', cursor = 2, completerModel = [''alpha'', ''beta''],
        completionPrefix = ''al'', completerNames = 1, recentCompletions = 2,
        autocompleteStart = Some 0, popup = [] \<rparr>"
  let ?e' = "\<lparr> document = ''alpha'', cursor = 5, completerModel = [''alpha'', ''beta''],
        completionPrefix = ''al'', completerNames = 1, recentCompletions = 2,
        autocompleteStart = None, popup = [Hide] \<rparr>"
  let ?ec = "\<lparr> document = ''al'', cursor = 2, completerModel = [''alpha'', ''beta''],
        completionPrefix = ''al'', completerNames = 1, recentCompletions = 2,
        autocompleteStart = None, popup = [Hide] \<rparr>"
  have v: "fst (run ascii_library ?ops ?he) 2 = [''beta'', ''alpha'']"
    by code_simp
  have a: "\<forall>a\<in>{2}. distinct (init_store 1 2 no_lists a)"
    by (simp add: init_store_def no_lists_def)
  have b: "recentCompletions (init [''alpha'', ''beta''] '''' 0 1 2) \<in> {2}"
    by (simp add: init_def)
  have c: "\<forall>v. OpSetRecent v \<in> set ?ops \<longrightarrow> v \<in> {2}" by simp
  from recency_list_invariant [where A = "{2}" and h = "init_store 1 2 no_lists"
      and e = "init [''alpha'', ''beta''] '''' 0 1 2" and ops = ?ops and L = ascii_library] a b c
  have d: "distinct (fst (run ascii_library ?ops ?he) 2)" by blast
  have acc: "onAutoComplete ''alpha'' (?h, ?e) = Inr (?h', ?e')"
    by (simp add: onAutoComplete_def autocompleteCancel_def Let_def)
  have dist: "distinct (?h (recentCompletions ?e))" by simp
  from recency_list_invariant [where h = ?h and e = ?e and h' = ?h' and e' = ?e'
      and t = "''alpha''"] acc dist
  have l: "last (?h' (recentCompletions ?e)) = ''alpha''" by blast
  have st: "step ascii_library OpCancel (?h, ?e) = Inr (?h, ?ec)"
    by (simp add: step_def autocompleteCancel_def)
  from v d acc l st show ?thesis by simp
qed

subsection \<open>Show requests\<close>




section \<open>Claim on the position of the anchor\<close>

text \<open>
  Claim C9.  For an open session with anchor \<open>a\<close> and an insertion of \<open>n\<close>
  characters at a position \<open>q\<close> not after the anchor: an insertion before the anchor
  moves it forward by \<open>n\<close> (an insertion at the anchor keeps it), and deleting the same
  \<open>n\<close> characters again restores the anchor to \<open>a\<close>.  A deletion of \<open>n\<close>
  characters that ends at or before the anchor moves it back by \<open>n\<close>.
\<close>

theorem anchor_round_trip:
  assumes "autocompleteStart e = Some a" and "q \<le> a"
  shows "autocompleteStart (editSession (Insert q n) e) = Some (if q < a then a + n else a) \<and>
         autocompleteStart (editSession (Delete q n) (editSession (Insert q n) e)) = Some a \<and>
         (q + n \<le> a \<longrightarrow> autocompleteStart (editSession (Delete q n) e) = Some (a - n))"
  using assms by (auto simp add: editSession_def adjustAnchor_def)

theorem anchor_round_trip_witness:
  "autocompleteStart (editSession (Insert 3 4) (init [] ''0123456789'' 10 1 2\<lparr> autocompleteStart := Some 10 \<rparr>))
     = Some 14 \<and>
   autocompleteStart (editSession (Delete 3 4)
     (editSession (Insert 3 4) (init [] ''0123456789'' 10 1 2\<lparr> autocompleteStart := Some 10 \<rparr>)))
     = Some 10 \<and>
   autocompleteStart (editSession (Delete 3 4) (init [] ''0123456789'' 10 1 2\<lparr> autocompleteStart := Some 10 \<rparr>))
     = Some 6"
proof -
  let ?e = "init [] ''0123456789'' 10 1 2\<lparr> autocompleteStart := Some 10 \<rparr>"
  have a: "autocompleteStart ?e = Some 10" by simp
  have b: "(3::nat) \<le> 10" "(3::nat) + 4 \<le> 10" "(3::nat) < 10" by simp_all
  from anchor_round_trip [OF a b(1), of 4] b show ?thesis by simp
qed

section \<open>Claim on the completion against the shell\<close>

text \<open>
  Claim C10 says that the path through \<open>autoComplete_process\<close> sorts the candidates of
  the response by their upper-case form, takes the first one whose lower-case form
  starts with the partial name, and cancels the popup when there is none.  For the line
  \<open>eat = food.fruit.ban\<close> the stored name is \<open>food.fruit.ban\<close>; splitting it at the
  dots gives three parts, unpacking them into the base and the name raises
  \<open>ValueError\<close>, and nothing is sorted, shown or cancelled.  With the base \<open>food\<close>
  the path sorts the response and shows the list.
\<close>

theorem dotted_base_raises:
  "autoComplete_do_now lower_ascii
     \<lparr> editor1_is_self = True, editor2_is_self = False, editor2_builtins = Some [] \<rparr>
     \<lparr> delayTimer_line = ''eat = food.fruit.ban'', autoComp_name = '''',
       autoCompActive = False, autoCompShown = None, requests = [] \<rparr> =
     Inr \<lparr> delayTimer_line = ''eat = food.fruit.ban'', autoComp_name = ''food.fruit.ban'',
           autoCompActive = False, autoCompShown = None, requests = [''DIR food.fruit''] \<rparr> \<and>
   autoComplete_process upper_ascii lower_ascii
     \<lparr> editor1_is_self = True, editor2_is_self = False, editor2_builtins = Some [] \<rparr>
     ''banana,bar''
     \<lparr> delayTimer_line = ''eat = food.fruit.ban'', autoComp_name = ''food.fruit.ban'',
       autoCompActive = False, autoCompShown = None, requests = [''DIR food.fruit''] \<rparr> =
     Inl ValueError \<and>
   autoComplete_process upper_ascii lower_ascii
     \<lparr> editor1_is_self = True, editor2_is_self = False, editor2_builtins = Some [] \<rparr>
     ''banana,Bar,apple''
     \<lparr> delayTimer_line = ''eat = food.ba'', autoComp_name = ''food.ba'',
       autoCompActive = False, autoCompShown = None, requests = [''DIR food''] \<rparr> =
     Inr \<lparr> delayTimer_line = ''eat = food.ba'', autoComp_name = ''food.ba'',
           autoCompActive = True, autoCompShown = Some (2, ''apple banana Bar''),
           requests = [''DIR food''] \<rparr>"
  by code_simp

theorem dotted_base_raises_witness:
  "autoComplete_process upper_ascii lower_ascii
     \<lparr> editor1_is_self = True, editor2_is_self = False, editor2_builtins = Some [] \<rparr>
     ''banana,bar''
     \<lparr> delayTimer_line = ''eat = food.fruit.ban'', autoComp_name = ''food.fruit.ban'',
       autoCompActive = False, autoCompShown = None, requests = [''DIR food.fruit''] \<rparr> =
     Inl ValueError"
  using dotted_base_raises by simp

end
